theory Spec2Isabelle
  imports Main
begin

section \<open>Hamilton puzzles (hamilton.c): data model\<close>

text \<open>
  The C code stores grid numbers in \<^verbatim>\<open>number_t\<close> and coordinates in \<^verbatim>\<open>coord_t\<close>, both
  \<^verbatim>\<open>unsigned char\<close>, and computes with them in \<^verbatim>\<open>int\<close>. The model uses \<^typ>\<open>int\<close>
  throughout and writes the truncation of a store into an \<^verbatim>\<open>unsigned char\<close> out as
  \<open>to_uchar\<close>. A grid is the row-major list of its cells (0 is a blank square), a location
  is the pair of its x and y coordinate.
\<close>

definition to_uchar :: "int \<Rightarrow> int" where
  "to_uchar v = v mod 256"

definition NUMBER_MAX :: int where
  "NUMBER_MAX = 99"

definition NO_COORD :: int where
  "NO_COORD = 255"

definition DIFF_EASY :: int where
  "DIFF_EASY = 0"

definition DIFF_HARD :: int where
  "DIFF_HARD = 1"

type_synonym location_t = "int \<times> int"

definition cell :: "int list \<Rightarrow> int \<Rightarrow> int \<Rightarrow> int \<Rightarrow> int" where
  "cell g w x y = g ! nat (y * w + x)"

definition set_cell :: "int list \<Rightarrow> int \<Rightarrow> int \<Rightarrow> int \<Rightarrow> int \<Rightarrow> int list" where
  "set_cell g w x y v = g[nat (y * w + x) := to_uchar v]"

definition manhattan_distance :: "int \<Rightarrow> int \<Rightarrow> int \<Rightarrow> int \<Rightarrow> int" where
  "manhattan_distance x1 y1 x2 y2 = (let dx = \<bar>x2 - x1\<bar>; dy = \<bar>y2 - y1\<bar> in dx + dy)"

definition chebyshev_distance :: "int \<Rightarrow> int \<Rightarrow> int \<Rightarrow> int \<Rightarrow> int" where
  "chebyshev_distance x1 y1 x2 y2 = (let dx = \<bar>x2 - x1\<bar>; dy = \<bar>y2 - y1\<bar> in max dx dy)"

definition distance :: "int \<Rightarrow> int \<Rightarrow> int \<Rightarrow> int \<Rightarrow> bool \<Rightarrow> int" where
  "distance x1 y1 x2 y2 diagonal =
     (if diagonal then chebyshev_distance x1 y1 x2 y2 else manhattan_distance x1 y1 x2 y2)"

section \<open>Gaps\<close>

record gap_t =
  n1 :: int
  n2 :: int
  l1 :: location_t
  l2 :: location_t

text \<open>
  \<^verbatim>\<open>compute_number_to_location_map\<close>: entry \<open>i\<close> of the map is the location of number \<open>i\<close>,
  or (NO_COORD, NO_COORD). The cells are visited row by row, so a later cell overwrites
  an earlier one holding the same number. A clue above \<open>area\<close> would be written outside
  the array in C; the list update of the model ignores it.
\<close>

definition map_cell :: "int list \<Rightarrow> int \<Rightarrow> int \<Rightarrow> location_t list \<Rightarrow> int \<Rightarrow> location_t list" where
  "map_cell g w y m x =
     (let clue = cell g w x y
      in if clue > 0 then m[nat clue := (to_uchar x, to_uchar y)] else m)"

definition map_row :: "int list \<Rightarrow> int \<Rightarrow> location_t list \<Rightarrow> int \<Rightarrow> location_t list" where
  "map_row g w m y = foldl (map_cell g w y) m [0..w - 1]"

definition compute_number_to_location_map :: "int list \<Rightarrow> int \<Rightarrow> int \<Rightarrow> location_t list" where
  "compute_number_to_location_map g w h =
     foldl (map_row g w) (replicate (nat (w * h + 1)) (NO_COORD, NO_COORD)) [0..h - 1]"

text \<open>The two searches for the first and the last number present on the grid.\<close>

function find_first_number :: "location_t list \<Rightarrow> int \<Rightarrow> int \<Rightarrow> int" where
  "find_first_number m area i =
     (if i \<le> area then (if fst (m ! nat i) \<noteq> NO_COORD then i else find_first_number m area (i + 1))
      else i)"
  by pat_completeness auto
termination
  by (relation "measure (\<lambda>(m, area, i). nat (area + 1 - i))") auto

function find_last_number :: "location_t list \<Rightarrow> int \<Rightarrow> int \<Rightarrow> int" where
  "find_last_number m first i =
     (if i \<ge> first then (if fst (m ! nat i) \<noteq> NO_COORD then i else find_last_number m first (i - 1))
      else i)"
  by pat_completeness auto
termination
  by (relation "measure (\<lambda>(m, first, i). nat (i + 1 - first))") auto

definition add_gap :: "gap_t list \<Rightarrow> int \<Rightarrow> int \<Rightarrow> int \<Rightarrow> int \<Rightarrow> int \<Rightarrow> int \<Rightarrow> gap_t list" where
  "add_gap gs a x1 y1 b x2 y2 =
     gs @ [\<lparr>n1 = to_uchar a, n2 = to_uchar b,
            l1 = (to_uchar x1, to_uchar y1), l2 = (to_uchar x2, to_uchar y2)\<rparr>]"

text \<open>
  The loop of \<^verbatim>\<open>compute_gaps\<close> over \<open>i = first_number .. last_number\<close>. Its state is
  the gap list and the longest gap seen. Closing a gap writes into the last element of the
  list; the C code does that through \<^verbatim>\<open>gaps[gaps_length - 1]\<close>, which is outside the
  array when the list is empty, and the model returns \<open>None\<close> there.
\<close>

function gaps_loop ::
  "location_t list \<Rightarrow> int \<Rightarrow> int \<Rightarrow> int \<Rightarrow> gap_t list \<Rightarrow> int \<Rightarrow> (gap_t list \<times> int) option" where
  "gaps_loop m first_number last_number i gs longest =
     (if i \<le> last_number then
        (let loc = m ! nat i;
             closing = (i > first_number \<and> fst loc \<noteq> NO_COORD \<and> fst (m ! nat (i - 1)) = NO_COORD);
             opening = (i < last_number \<and> fst loc \<noteq> NO_COORD \<and> fst (m ! nat (i + 1)) = NO_COORD)
         in if closing \<and> gs = [] then None
            else
              (let gs1 = (if closing
                          then butlast gs @ [(last gs)\<lparr>n2 := to_uchar i, l2 := loc\<rparr>]
                          else gs);
                   longest1 = (if closing then max longest (i - n1 (last gs) - 1) else longest);
                   gs2 = (if opening
                          then add_gap gs1 i (fst loc) (snd loc) 0 NO_COORD NO_COORD
                          else gs1)
               in gaps_loop m first_number last_number (i + 1) gs2 longest1))
      else Some (gs, longest))"
  by pat_completeness auto
termination
  by (relation "measure (\<lambda>(m, first_number, last_number, i, gs, longest). nat (last_number + 1 - i))")
     auto

text \<open>
  \<^verbatim>\<open>compute_gaps\<close> returns the gap list and the length of the longest gap. The two
  assertions of the C code (there is at least one number on the grid) make the model
  return \<open>None\<close> when they fail.
\<close>

definition compute_gaps :: "int list \<Rightarrow> int \<Rightarrow> int \<Rightarrow> (gap_t list \<times> int) option" where
  "compute_gaps g w h =
     (let area = w * h;
          number_map = compute_number_to_location_map g w h;
          first_number = find_first_number number_map area 1
      in if \<not> first_number \<le> area then None
         else
           (let last_number = find_last_number number_map first_number area
            in if \<not> last_number \<ge> first_number then None
               else
                 (let (gs0, longest0) =
                        (if first_number \<noteq> 1
                         then (let loc = number_map ! nat first_number
                               in (add_gap [] 0 NO_COORD NO_COORD first_number (fst loc) (snd loc),
                                   max 0 (first_number - 1)))
                         else ([], 0))
                  in case gaps_loop number_map first_number last_number first_number gs0 longest0 of
                       None \<Rightarrow> None
                     | Some (gs1, longest1) \<Rightarrow>
                         (if last_number \<noteq> area
                          then (let loc = number_map ! nat last_number
                                in Some (add_gap gs1 last_number (fst loc) (snd loc)
                                           (area + 1) NO_COORD NO_COORD,
                                         max longest1 (area - last_number)))
                          else Some (gs1, longest1)))))"

section \<open>Solver state and the rules for necessary moves\<close>

record solver_state_t =
  st_w :: int
  st_h :: int
  st_diagonal :: bool
  st_steps_limit :: int
  st_grid :: "int list"
  st_gaps :: "gap_t list"

text \<open>
  \<^verbatim>\<open>init_solver_state\<close> copies the grid and computes the gaps; it also hands back the
  length of the longest gap. \<^verbatim>\<open>gaps_length\<close> is the length of the gap list.
\<close>

definition init_solver_state ::
  "int list \<Rightarrow> int \<Rightarrow> int \<Rightarrow> bool \<Rightarrow> int \<Rightarrow> (solver_state_t \<times> int) option" where
  "init_solver_state g w h diagonal steps_limit =
     (case compute_gaps g w h of
        None \<Rightarrow> None
      | Some (gs, longest_gap) \<Rightarrow>
          Some (\<lparr>st_w = w, st_h = h, st_diagonal = diagonal, st_steps_limit = steps_limit,
                 st_grid = take (nat (w * h)) g, st_gaps = gs\<rparr>, longest_gap))"

text \<open>
  The squares around (x, y) that lie on the grid, in the order in which
  \<^verbatim>\<open>find_only_move\<close> and \<^verbatim>\<open>check_blocked_number\<close> visit them: west, east, north, south,
  and with diagonal moves north-west, north-east, south-west, south-east.
\<close>

definition neighbors_WENS :: "int \<Rightarrow> int \<Rightarrow> bool \<Rightarrow> int \<Rightarrow> int \<Rightarrow> location_t list" where
  "neighbors_WENS w h diagonal x y =
     (if x > 0 then [(x - 1, y)] else []) @
     (if x < w - 1 then [(x + 1, y)] else []) @
     (if y > 0 then [(x, y - 1)] else []) @
     (if y < h - 1 then [(x, y + 1)] else []) @
     (if diagonal then
        (if x > 0 \<and> y > 0 then [(x - 1, y - 1)] else []) @
        (if x < w - 1 \<and> y > 0 then [(x + 1, y - 1)] else []) @
        (if x > 0 \<and> y < h - 1 then [(x - 1, y + 1)] else []) @
        (if x < w - 1 \<and> y < h - 1 then [(x + 1, y + 1)] else [])
      else [])"

text \<open>
  \<^verbatim>\<open>find_only_move_helper\<close> returns FALSE when a second empty square is met; otherwise
  it returns TRUE and the (possibly updated) candidate (nx, ny).
\<close>

definition find_only_move_helper ::
  "int list \<Rightarrow> int \<Rightarrow> int \<Rightarrow> int \<Rightarrow> int \<Rightarrow> int \<Rightarrow> bool \<times> int \<times> int" where
  "find_only_move_helper g w x y nx ny =
     (if cell g w x y = 0 then
        (if nx \<noteq> NO_COORD then (False, nx, ny) else (True, x, y))
      else (True, nx, ny))"

fun find_only_move_scan ::
  "int list \<Rightarrow> int \<Rightarrow> location_t list \<Rightarrow> int \<Rightarrow> int \<Rightarrow> bool \<times> int \<times> int" where
  "find_only_move_scan g w [] nx ny = (nx \<noteq> NO_COORD, nx, ny)"
| "find_only_move_scan g w ((x, y) # cs) nx ny =
     (case find_only_move_helper g w x y nx ny of
        (False, _) \<Rightarrow> (False, nx, ny)
      | (True, nx', ny') \<Rightarrow> find_only_move_scan g w cs nx' ny')"

definition find_only_move ::
  "int list \<Rightarrow> int \<Rightarrow> int \<Rightarrow> bool \<Rightarrow> int \<Rightarrow> int \<Rightarrow> bool \<times> int \<times> int" where
  "find_only_move g w h diagonal x y =
     find_only_move_scan g w (neighbors_WENS w h diagonal x y) NO_COORD NO_COORD"

definition check_blocked_number_helper ::
  "int list \<Rightarrow> int \<Rightarrow> int \<Rightarrow> int \<Rightarrow> int \<Rightarrow> int \<Rightarrow> int" where
  "check_blocked_number_helper g w x y n available =
     (let other = cell g w x y
      in if other = 0 \<or> other = n - 1 \<or> other = n + 1 then available + 1 else available)"

text \<open>
  \<^verbatim>\<open>check_blocked_number\<close> asserts that the target square holds a number; the model
  returns \<open>None\<close> when the assertion fails, and the functions that call it hand the
  \<open>None\<close> on: the C program is aborted there.
\<close>

definition check_blocked_number ::
  "int list \<Rightarrow> int \<Rightarrow> int \<Rightarrow> bool \<Rightarrow> int \<Rightarrow> int \<Rightarrow> bool option" where
  "check_blocked_number g w h diagonal x y =
     (let n = cell g w x y
      in if \<not> n > 0 then None
         else
           (let available = foldl (\<lambda>a (x', y'). check_blocked_number_helper g w x' y' n a) 0
                              (neighbors_WENS w h diagonal x y)
            in Some (available < 2)))"

fun check_blocked_gaps :: "solver_state_t \<Rightarrow> int \<Rightarrow> int \<Rightarrow> gap_t list \<Rightarrow> bool option" where
  "check_blocked_gaps st x y [] = Some False"
| "check_blocked_gaps st x y (gap # rest) =
     (if fst (l2 gap) \<noteq> NO_COORD
         \<and> distance (fst (l2 gap)) (snd (l2 gap)) x y (st_diagonal st) = 1
      then (case check_blocked_number (st_grid st) (st_w st) (st_h st) (st_diagonal st)
                   (fst (l2 gap)) (snd (l2 gap)) of
              None \<Rightarrow> None
            | Some True \<Rightarrow> Some True
            | Some False \<Rightarrow> check_blocked_gaps st x y rest)
      else check_blocked_gaps st x y rest)"

definition check_blocked_numbers_nearby :: "solver_state_t \<Rightarrow> int \<Rightarrow> int \<Rightarrow> bool option" where
  "check_blocked_numbers_nearby st x y = check_blocked_gaps st x y (st_gaps st)"

text \<open>The \<^verbatim>\<open>memmove\<close> that deletes entry \<open>gap_index\<close> from the gap list.\<close>

definition remove_gap :: "gap_t list \<Rightarrow> nat \<Rightarrow> gap_t list" where
  "remove_gap gs gap_index = take gap_index gs @ drop (Suc gap_index) gs"

text \<open>
  \<^verbatim>\<open>place_number_l1\<close> and \<^verbatim>\<open>place_number_l2\<close> return FALSE when the placement makes the
  puzzle unsolvable. The state is returned as the C code leaves it: on the second FALSE
  the number has already been written.
\<close>

definition place_number_l1 ::
  "solver_state_t \<Rightarrow> nat \<Rightarrow> int \<Rightarrow> int \<Rightarrow> (bool \<times> solver_state_t) option" where
  "place_number_l1 st gap_index x y =
     (let w = st_w st;
          gap = st_gaps st ! gap_index;
          n = n1 gap + 1
      in if fst (l2 gap) \<noteq> NO_COORD
            \<and> distance x y (fst (l2 gap)) (snd (l2 gap)) (st_diagonal st) > n2 gap - n1 gap - 1
         then Some (False, st)
         else
           (let st1 = st\<lparr>st_grid := set_cell (st_grid st) w x y n\<rparr>
            in case check_blocked_numbers_nearby st1 x y of
                 None \<Rightarrow> None
               | Some True \<Rightarrow> Some (False, st1)
               | Some False \<Rightarrow>
                   if n + 1 = n2 gap
                   then Some (True, st1\<lparr>st_gaps := remove_gap (st_gaps st1) gap_index\<rparr>)
                   else Some (True, st1\<lparr>st_gaps := (st_gaps st1)
                           [gap_index := gap\<lparr>n1 := to_uchar n,
                                               l1 := (to_uchar x, to_uchar y)\<rparr>]\<rparr>)))"

definition place_number_l2 ::
  "solver_state_t \<Rightarrow> nat \<Rightarrow> int \<Rightarrow> int \<Rightarrow> (bool \<times> solver_state_t) option" where
  "place_number_l2 st gap_index x y =
     (let w = st_w st;
          gap = st_gaps st ! gap_index;
          n = n2 gap - 1
      in if fst (l1 gap) \<noteq> NO_COORD
            \<and> distance x y (fst (l1 gap)) (snd (l1 gap)) (st_diagonal st) > n2 gap - n1 gap - 1
         then Some (False, st)
         else
           (let st1 = st\<lparr>st_grid := set_cell (st_grid st) w x y n\<rparr>
            in case check_blocked_numbers_nearby st1 x y of
                 None \<Rightarrow> None
               | Some True \<Rightarrow> Some (False, st1)
               | Some False \<Rightarrow>
                   if n - 1 = n1 gap
                   then Some (True, st1\<lparr>st_gaps := remove_gap (st_gaps st1) gap_index\<rparr>)
                   else Some (True, st1\<lparr>st_gaps := (st_gaps st1)
                           [gap_index := gap\<lparr>n2 := to_uchar n,
                                               l2 := (to_uchar x, to_uchar y)\<rparr>]\<rparr>)))"

datatype move_result_t = UNSOLVABLE | MOVED | DIDNT_MOVE

definition do_only_move ::
  "solver_state_t \<Rightarrow> nat \<Rightarrow> (move_result_t \<times> solver_state_t) option" where
  "do_only_move st gap_index =
     (let w = st_w st; h = st_h st;
          gap = st_gaps st ! gap_index
      in if fst (l1 gap) \<noteq> NO_COORD
            \<and> fst (find_only_move (st_grid st) w h (st_diagonal st) (fst (l1 gap)) (snd (l1 gap)))
         then
           (let (nx, ny) = snd (find_only_move (st_grid st) w h (st_diagonal st)
                                  (fst (l1 gap)) (snd (l1 gap)))
            in case place_number_l1 st gap_index nx ny of
                 None \<Rightarrow> None
               | Some (True, st') \<Rightarrow> Some (MOVED, st')
               | Some (False, st') \<Rightarrow> Some (UNSOLVABLE, st'))
         else if fst (l2 gap) \<noteq> NO_COORD
            \<and> fst (find_only_move (st_grid st) w h (st_diagonal st) (fst (l2 gap)) (snd (l2 gap)))
         then
           (let (nx, ny) = snd (find_only_move (st_grid st) w h (st_diagonal st)
                                  (fst (l2 gap)) (snd (l2 gap)))
            in case place_number_l2 st gap_index nx ny of
                 None \<Rightarrow> None
               | Some (True, st') \<Rightarrow> Some (MOVED, st')
               | Some (False, st') \<Rightarrow> Some (UNSOLVABLE, st'))
         else Some (DIDNT_MOVE, st))"

text \<open>
  The direction (sx, sy) of the straight path of a gap, or \<open>None\<close> where
  \<^verbatim>\<open>do_straight_path\<close> returns DIDNT_MOVE before its loop.
\<close>

definition straight_path_direction :: "bool \<Rightarrow> gap_t \<Rightarrow> (int \<times> int) option" where
  "straight_path_direction diagonal gap =
     (if diagonal then
        (let dx = fst (l2 gap) - fst (l1 gap);
             dy = snd (l2 gap) - snd (l1 gap);
             adx = \<bar>dx\<bar>
         in if dx = dy \<or> dx = - dy then
              (if n2 gap - n1 gap \<noteq> adx then None
               else Some (if dx > 0 then 1 else - 1, if dy > 0 then 1 else - 1))
            else None)
      else
        (if fst (l1 gap) = fst (l2 gap) then
           (if n2 gap - n1 gap \<noteq> \<bar>snd (l2 gap) - snd (l1 gap)\<bar> then None
            else Some (0, if snd (l2 gap) - snd (l1 gap) > 0 then 1 else - 1))
         else if snd (l1 gap) = snd (l2 gap) then
           (if n2 gap - n1 gap \<noteq> \<bar>fst (l2 gap) - fst (l1 gap)\<bar> then None
            else Some (if fst (l2 gap) - fst (l1 gap) > 0 then 1 else - 1, 0))
         else None))"

text \<open>
  The loop of \<^verbatim>\<open>do_straight_path\<close> over \<open>n = n1 + 1 .. n2 - 1\<close>; FALSE stands for the
  return of UNSOLVABLE from inside the loop.
\<close>

function straight_path_loop ::
  "solver_state_t \<Rightarrow> int \<Rightarrow> int \<Rightarrow> int \<Rightarrow> int \<Rightarrow> int \<Rightarrow> int
     \<Rightarrow> (bool \<times> solver_state_t) option" where
  "straight_path_loop st x y sx sy n bound =
     (if n < bound then
        (let x' = x + sx; y' = y + sy
         in if cell (st_grid st) (st_w st) x' y' \<noteq> 0 then Some (False, st)
            else
              (let st1 = st\<lparr>st_grid := set_cell (st_grid st) (st_w st) x' y' n\<rparr>
               in case check_blocked_numbers_nearby st1 x' y' of
                    None \<Rightarrow> None
                  | Some True \<Rightarrow> Some (False, st1)
                  | Some False \<Rightarrow> straight_path_loop st1 x' y' sx sy (n + 1) bound))
      else Some (True, st))"
  by pat_completeness auto
termination
  by (relation "measure (\<lambda>(st, x, y, sx, sy, n, bound). nat (bound - n))") auto

definition do_straight_path ::
  "solver_state_t \<Rightarrow> nat \<Rightarrow> (move_result_t \<times> solver_state_t) option" where
  "do_straight_path st gap_index =
     (let gap = st_gaps st ! gap_index
      in case straight_path_direction (st_diagonal st) gap of
           None \<Rightarrow> Some (DIDNT_MOVE, st)
         | Some (sx, sy) \<Rightarrow>
             (case straight_path_loop st (fst (l1 gap)) (snd (l1 gap)) sx sy (n1 gap + 1) (n2 gap) of
                None \<Rightarrow> None
              | Some (False, st') \<Rightarrow> Some (UNSOLVABLE, st')
              | Some (True, st') \<Rightarrow> Some (MOVED, st'\<lparr>st_gaps := remove_gap (st_gaps st') gap_index\<rparr>)))"

text \<open>
  \<^verbatim>\<open>do_necessary_moves\<close>: a \<^verbatim>\<open>do ... while (changed)\<close> around a \<^verbatim>\<open>for\<close> over the gap
  indices. After MOVED the C code decrements \<open>g\<close> and continues, so the same index is
  looked at again. The loop is not bounded by anything in its own text, hence a partial
  function: \<open>None\<close> stands for a call that does not return. \<open>Some (False, _)\<close> is the
  return of FALSE (the puzzle is unsolvable), \<open>Some (True, st)\<close> the return of TRUE
  with the state as the loop left it.
\<close>

partial_function (option) necessary_moves_loop ::
  "solver_state_t \<Rightarrow> nat \<Rightarrow> bool \<Rightarrow> (bool \<times> solver_state_t) option" where
  "necessary_moves_loop st g changed =
     (if g < length (st_gaps st) then
        (case do_straight_path st g of
           None \<Rightarrow> None
         | Some (UNSOLVABLE, st') \<Rightarrow> Some (False, st')
         | Some (MOVED, st') \<Rightarrow> necessary_moves_loop st' g True
         | Some (DIDNT_MOVE, _) \<Rightarrow>
             (case do_only_move st g of
                None \<Rightarrow> None
              | Some (UNSOLVABLE, st') \<Rightarrow> Some (False, st')
              | Some (MOVED, st') \<Rightarrow> necessary_moves_loop st' g True
              | Some (DIDNT_MOVE, _) \<Rightarrow> necessary_moves_loop st (Suc g) changed))
      else if changed then necessary_moves_loop st 0 False
      else Some (True, st))"

declare necessary_moves_loop.simps [code]

definition do_necessary_moves :: "solver_state_t \<Rightarrow> (bool \<times> solver_state_t) option" where
  "do_necessary_moves st = necessary_moves_loop st 0 False"

section \<open>Recursive trial and error\<close>

text \<open>
  The three out-parameters of \<^verbatim>\<open>do_recursive_solve\<close> are threaded through the search:
  the first solution found (\<open>None\<close> for the NULL pointer), the flag \<^verbatim>\<open>*multiple\<close> and the
  counter \<^verbatim>\<open>*steps\<close>. The argument \<open>unique\<close> says that the pointer \<^verbatim>\<open>multiple\<close> is not
  NULL. \<open>try_moves\<close> is the chain of \<^verbatim>\<open>if (guard && step(...)) return TRUE;\<close> statements:
  it runs the step on each candidate square in turn and stops at the first one that
  reports that the search is finished.
\<close>

type_synonym search_t = "int list option \<times> bool \<times> int"

fun try_moves ::
  "(location_t \<Rightarrow> search_t \<Rightarrow> (bool \<times> search_t) option) \<Rightarrow> location_t list \<Rightarrow> search_t
     \<Rightarrow> (bool \<times> search_t) option" where
  "try_moves step [] acc = Some (False, acc)"
| "try_moves step (c # cs) acc =
     Option.bind (step c acc)
       (\<lambda>r. if fst r then Some (True, snd r) else try_moves step cs (snd r))"

lemma try_moves_mono [partial_function_mono]:
  assumes "\<And>c acc. mono_option (\<lambda>f. step f c acc)"
  shows "mono_option (\<lambda>f. try_moves (step f) cs acc)"
proof (induction cs arbitrary: acc)
  case Nil
  show ?case by (simp add: option.const_mono)
next
  case (Cons c cs)
  show ?case
    apply (simp only: try_moves.simps)
    apply (intro partial_function_mono assms Cons)
    done
qed


text \<open>
  The candidate squares in the order of \<^verbatim>\<open>do_recursive_solve\<close>: west, north, east,
  south, then north-west, south-west, north-east, south-east.
\<close>

definition neighbors_WNES :: "int \<Rightarrow> int \<Rightarrow> bool \<Rightarrow> int \<Rightarrow> int \<Rightarrow> location_t list" where
  "neighbors_WNES w h diagonal x y =
     (if x > 0 then [(x - 1, y)] else []) @
     (if y > 0 then [(x, y - 1)] else []) @
     (if x < w - 1 then [(x + 1, y)] else []) @
     (if y < h - 1 then [(x, y + 1)] else []) @
     (if diagonal then
        (if x > 0 \<and> y > 0 then [(x - 1, y - 1)] else []) @
        (if x > 0 \<and> y < h - 1 then [(x - 1, y + 1)] else []) @
        (if x < w - 1 \<and> y > 0 then [(x + 1, y - 1)] else []) @
        (if x < w - 1 \<and> y < h - 1 then [(x + 1, y + 1)] else [])
      else [])"

definition do_recursive_solve_step_l1 ::
  "(solver_state_t \<Rightarrow> search_t \<Rightarrow> (bool \<times> search_t) option) \<Rightarrow> solver_state_t \<Rightarrow> nat
     \<Rightarrow> location_t \<Rightarrow> search_t \<Rightarrow> (bool \<times> search_t) option" where
  "do_recursive_solve_step_l1 recurse st gap_index c acc =
     (if cell (st_grid st) (st_w st) (fst c) (snd c) \<noteq> 0 then Some (False, acc)
      else Option.bind (place_number_l1 st gap_index (fst c) (snd c))
             (\<lambda>r. if fst r then recurse (snd r) acc else Some (False, acc)))"

definition do_recursive_solve_step_l2 ::
  "(solver_state_t \<Rightarrow> search_t \<Rightarrow> (bool \<times> search_t) option) \<Rightarrow> solver_state_t \<Rightarrow> nat
     \<Rightarrow> location_t \<Rightarrow> search_t \<Rightarrow> (bool \<times> search_t) option" where
  "do_recursive_solve_step_l2 recurse st gap_index c acc =
     (if cell (st_grid st) (st_w st) (fst c) (snd c) \<noteq> 0 then Some (False, acc)
      else Option.bind (place_number_l2 st gap_index (fst c) (snd c))
             (\<lambda>r. if fst r then recurse (snd r) acc else Some (False, acc)))"

lemma step_l1_mono [partial_function_mono]:
  assumes "\<And>s a. mono_option (\<lambda>f. R f s a)"
  shows "mono_option (\<lambda>f. do_recursive_solve_step_l1 (R f) st gap_index c acc)"
  unfolding do_recursive_solve_step_l1_def
  by (intro partial_function_mono assms)

lemma step_l2_mono [partial_function_mono]:
  assumes "\<And>s a. mono_option (\<lambda>f. R f s a)"
  shows "mono_option (\<lambda>f. do_recursive_solve_step_l2 (R f) st gap_index c acc)"
  unfolding do_recursive_solve_step_l2_def
  by (intro partial_function_mono assms)

text \<open>
  \<^verbatim>\<open>do_recursive_solve\<close> returns TRUE when the search is finished. A second solution
  met while \<^verbatim>\<open>multiple\<close> is NULL fails \<^verbatim>\<open>assert(multiple)\<close>; the model returns \<open>None\<close>
  there, as for every call that does not return. The counter is only incremented when
  \<^verbatim>\<open>steps_limit > 0\<close>, by the short-circuit of \<^verbatim>\<open>&&\<close>.
\<close>

partial_function (option) do_recursive_solve ::
  "bool \<Rightarrow> solver_state_t \<Rightarrow> search_t \<Rightarrow> (bool \<times> search_t) option" where
  "do_recursive_solve unique st0 acc =
     Option.bind (do_necessary_moves st0) (\<lambda>r.
       if \<not> fst r then Some (False, acc)
       else
         (let st = snd r;
              solution = fst acc; multiple = fst (snd acc); steps = snd (snd acc);
              w = st_w st; h = st_h st
          in if st_steps_limit st > 0 \<and> steps > st_steps_limit st
             then Some (True, (solution, multiple, steps + 1))
             else
               (let steps1 = (if st_steps_limit st > 0 then steps + 1 else steps)
                in if st_gaps st = [] then
                     (case solution of
                        Some s \<Rightarrow> if unique then Some (True, (solution, True, steps1)) else None
                      | None \<Rightarrow> Some (\<not> unique, (Some (st_grid st), multiple, steps1)))
                   else
                     (let gap = st_gaps st ! 0
                      in if fst (l1 gap) \<noteq> NO_COORD
                         then try_moves (do_recursive_solve_step_l1 (do_recursive_solve unique) st 0)
                                (neighbors_WNES w h (st_diagonal st) (fst (l1 gap)) (snd (l1 gap)))
                                (solution, multiple, steps1)
                         else try_moves (do_recursive_solve_step_l2 (do_recursive_solve unique) st 0)
                                (neighbors_WNES w h (st_diagonal st) (fst (l2 gap)) (snd (l2 gap)))
                                (solution, multiple, steps1)))))"

declare do_recursive_solve.simps [code]

section \<open>The solver\<close>

text \<open>
  \<^verbatim>\<open>gap_compare\<close> and \<^verbatim>\<open>gap_compare_diag\<close> order the gaps by the distance between their
  two end locations (a missing end is the location (255, 255)). \<^verbatim>\<open>qsort\<close> is modelled by
  the stable sort on that key; C leaves the order of gaps with equal keys open.

  The result of \<open>solver\<close> is \<open>None\<close> when the call does not return (a failed assertion
  or a loop that does not end), \<open>Some None\<close> for the return of FALSE and
  \<open>Some (Some s)\<close> for the return of TRUE with the solution \<open>s\<close>.
\<close>

definition gap_distance :: "bool \<Rightarrow> gap_t \<Rightarrow> int" where
  "gap_distance diagonal a =
     (if diagonal then chebyshev_distance (fst (l1 a)) (snd (l1 a)) (fst (l2 a)) (snd (l2 a))
      else manhattan_distance (fst (l1 a)) (snd (l1 a)) (fst (l2 a)) (snd (l2 a)))"

definition solver ::
  "int list \<Rightarrow> int \<Rightarrow> int \<Rightarrow> bool \<Rightarrow> int \<Rightarrow> int \<Rightarrow> int \<Rightarrow> bool \<Rightarrow> int list option option" where
  "solver g w h diagonal max_gap_length max_difficulty steps_limit unique_only =
     (case init_solver_state g w h diagonal steps_limit of
        None \<Rightarrow> None
      | Some (state, longest_gap_length) \<Rightarrow>
          if max_gap_length > 0 \<and> longest_gap_length > max_gap_length then Some None
          else if max_difficulty = DIFF_EASY then
            (case do_necessary_moves state of
               None \<Rightarrow> None
             | Some (ok, state') \<Rightarrow>
                 if ok \<and> st_gaps state' = [] then Some (Some (st_grid state')) else Some None)
          else
            (case do_recursive_solve unique_only
                    (state\<lparr>st_gaps := sort_key (gap_distance diagonal) (st_gaps state)\<rparr>)
                    (None, False, 0) of
               None \<Rightarrow> None
             | Some (finished, rsolution, multiple, steps) \<Rightarrow>
                 if multiple then Some None
                 else (case rsolution of Some s \<Rightarrow> Some (Some s) | None \<Rightarrow> Some None)))"

section \<open>Random Hamiltonian paths\<close>

text \<open>
  A path is the list of its locations. \<^verbatim>\<open>add_location\<close> writes at the running index of
  an array that was allocated in full; the index is the number of entries written so far,
  so the model appends. \<^verbatim>\<open>simple_hampath\<close> walks the rows in turn, left to right
  (zig) and right to left (zag); its final assertion \<^verbatim>\<open>p == area\<close> makes the model
  return \<open>None\<close> when it fails.
\<close>

definition add_location :: "location_t list \<Rightarrow> int \<Rightarrow> int \<Rightarrow> location_t list" where
  "add_location list x y = list @ [(to_uchar x, to_uchar y)]"

definition zig :: "int \<Rightarrow> int \<Rightarrow> location_t list \<Rightarrow> location_t list" where
  "zig w y path = foldl (\<lambda>p x. add_location p x y) path [0 .. w - 1]"

definition zag :: "int \<Rightarrow> int \<Rightarrow> location_t list \<Rightarrow> location_t list" where
  "zag w y path = foldl (\<lambda>p x. add_location p x y) path (rev [0 .. w - 1])"

function simple_hampath_rows :: "int \<Rightarrow> int \<Rightarrow> int \<Rightarrow> location_t list \<Rightarrow> location_t list" where
  "simple_hampath_rows w h y path =
     (if y < h then
        (let path1 = zig w y path
         in if y + 1 = h then path1
            else simple_hampath_rows w h (y + 2) (zag w (y + 1) path1))
      else path)"
  by pat_completeness auto
termination
  by (relation "measure (\<lambda>(w, h, y, path). nat (h - y))") auto

definition simple_hampath :: "int \<Rightarrow> int \<Rightarrow> location_t list option" where
  "simple_hampath w h =
     (let path = simple_hampath_rows w h 0 []
      in if int (length path) = w * h then Some path else None)"

text \<open>
  \<^verbatim>\<open>reverse_locations\<close> swaps the entries at \<open>a\<close> and \<open>b\<close> while \<open>a < b\<close>; it asserts
  \<^verbatim>\<open>length > 0\<close>.
\<close>

function reverse_loop :: "location_t list \<Rightarrow> int \<Rightarrow> int \<Rightarrow> location_t list" where
  "reverse_loop list a b =
     (if a < b
      then reverse_loop (list[nat a := list ! nat b, nat b := list ! nat a]) (a + 1) (b - 1)
      else list)"
  by pat_completeness auto
termination
  by (relation "measure (\<lambda>(list, a, b). nat (b - a))") auto

definition reverse_locations :: "location_t list \<Rightarrow> int \<Rightarrow> location_t list option" where
  "reverse_locations list len = (if len > 0 then Some (reverse_loop list 0 (len - 1)) else None)"

text \<open>\<^verbatim>\<open>find_location\<close>: the first index holding (x, y); \<open>None\<close> is \<^verbatim>\<open>assert(FALSE)\<close>.\<close>

function find_location_from :: "location_t list \<Rightarrow> int \<Rightarrow> int \<Rightarrow> int \<Rightarrow> int \<Rightarrow> int option" where
  "find_location_from list len x y index =
     (if index < len then
        (if fst (list ! nat index) = x \<and> snd (list ! nat index) = y then Some index
         else find_location_from list len x y (index + 1))
      else None)"
  by pat_completeness auto
termination
  by (relation "measure (\<lambda>(list, len, x, y, index). nat (len - index))") auto

definition find_location :: "location_t list \<Rightarrow> int \<Rightarrow> int \<Rightarrow> int \<Rightarrow> int option" where
  "find_location list len x y = find_location_from list len x y 0"

text \<open>
  The squares around the cursor in the order of \<^verbatim>\<open>get_neighbors_except\<close>: north, south,
  west, east, then north-west, south-west, north-east, south-east. The function asserts
  that the excepted location is next to the cursor.
\<close>

definition neighbors_NSWE :: "int \<Rightarrow> int \<Rightarrow> bool \<Rightarrow> int \<Rightarrow> int \<Rightarrow> location_t list" where
  "neighbors_NSWE w h diagonal cx cy =
     (if cy - 1 \<ge> 0 then [(cx, cy - 1)] else []) @
     (if cy + 1 < h then [(cx, cy + 1)] else []) @
     (if cx - 1 \<ge> 0 then [(cx - 1, cy)] else []) @
     (if cx + 1 < w then [(cx + 1, cy)] else []) @
     (if diagonal then
        (if cy - 1 \<ge> 0 \<and> cx - 1 \<ge> 0 then [(cx - 1, cy - 1)] else []) @
        (if cy + 1 < h \<and> cx - 1 \<ge> 0 then [(cx - 1, cy + 1)] else []) @
        (if cy - 1 \<ge> 0 \<and> cx + 1 < w then [(cx + 1, cy - 1)] else []) @
        (if cy + 1 < h \<and> cx + 1 < w then [(cx + 1, cy + 1)] else [])
      else [])"

definition get_neighbors_except_helper ::
  "location_t list \<Rightarrow> int \<Rightarrow> int \<Rightarrow> location_t \<Rightarrow> location_t list" where
  "get_neighbors_except_helper neighbors x y except =
     (if fst except \<noteq> x \<or> snd except \<noteq> y then add_location neighbors x y else neighbors)"

definition get_neighbors_except ::
  "location_t \<Rightarrow> location_t \<Rightarrow> int \<Rightarrow> int \<Rightarrow> bool \<Rightarrow> location_t list option" where
  "get_neighbors_except cursor except w h diagonal =
     (if distance (fst cursor) (snd cursor) (fst except) (snd except) diagonal \<noteq> 1 then None
      else Some (foldl (\<lambda>ns (x, y). get_neighbors_except_helper ns x y except) []
                   (neighbors_NSWE w h diagonal (fst cursor) (snd cursor))))"

text \<open>
  Modelled from the spec: \<^verbatim>\<open>random_upto\<close> and \<^verbatim>\<open>shuffle\<close> are declared in puzzles.h and
  their bodies are not part of the sources at hand. The specification describes the random
  source as a generator \<open>next_below(n)\<close> of integers in \<open>[0, n)\<close>. A random state is the
  infinite sequence of raw draws still to come; \<open>random_upto\<close> reduces the next draw
  modulo \<open>n\<close>, so every sequence of results in range is the behaviour of some random
  state. \<open>shuffle\<close> permutes the first \<open>nelts\<close> entries by exchanging entry \<open>i\<close>, for
  \<open>i = nelts - 1\<close> down to 1, with a random entry at or below it.
\<close>

type_synonym random_state = "nat \<Rightarrow> nat"

definition random_upto :: "random_state \<Rightarrow> int \<Rightarrow> int \<times> random_state" where
  "random_upto rs limit = (int (rs 0) mod limit, \<lambda>i. rs (Suc i))"

function shuffle_loop :: "int list \<Rightarrow> int \<Rightarrow> random_state \<Rightarrow> int list \<times> random_state" where
  "shuffle_loop array i rs =
     (if i > 1 then
        (let i' = i - 1;
             (j, rs') = random_upto rs (i' + 1);
             array' = (if j \<noteq> i' then array[nat i' := array ! nat j, nat j := array ! nat i']
                       else array)
         in shuffle_loop array' i' rs')
      else (array, rs))"
  by pat_completeness auto
termination
  by (relation "measure (\<lambda>(array, i, rs). nat i)") auto

definition shuffle :: "int list \<Rightarrow> int \<Rightarrow> random_state \<Rightarrow> int list \<times> random_state" where
  "shuffle array nelts rs = shuffle_loop array nelts rs"

definition SHUFFLE_FACTOR :: int where
  "SHUFFLE_FACTOR = 5"

text \<open>
  One round of the loop of \<^verbatim>\<open>random_hampath\<close>, with its three assertions, and the loop
  over \<open>i = 0 .. 2 * SHUFFLE_FACTOR * area - 1\<close>.
\<close>

definition random_hampath_step ::
  "int \<Rightarrow> int \<Rightarrow> bool \<Rightarrow> int \<Rightarrow> location_t list \<times> random_state
     \<Rightarrow> (location_t list \<times> random_state) option" where
  "random_hampath_step w h diagonal i s =
     (let area = w * h; rs = snd s
      in case (if i = SHUFFLE_FACTOR * area then reverse_locations (fst s) area else Some (fst s)) of
           None \<Rightarrow> None
         | Some path \<Rightarrow>
             (case get_neighbors_except (path ! 0) (path ! 1) w h diagonal of
                None \<Rightarrow> None
              | Some neighbors \<Rightarrow>
                  (let neighbors_length = int (length neighbors)
                   in if \<not> neighbors_length > 0 then None
                      else if \<not> (if diagonal then neighbors_length < 8 else neighbors_length < 4)
                      then None
                      else
                        (let (n, rs') = random_upto rs neighbors_length
                         in case find_location path area (fst (neighbors ! nat n))
                                   (snd (neighbors ! nat n)) of
                              None \<Rightarrow> None
                            | Some index \<Rightarrow>
                                if \<not> index > 0 then None
                                else (case reverse_locations path index of
                                        None \<Rightarrow> None
                                      | Some path' \<Rightarrow> Some (path', rs'))))))"

function random_hampath_loop ::
  "int \<Rightarrow> int \<Rightarrow> bool \<Rightarrow> int \<Rightarrow> location_t list \<times> random_state
     \<Rightarrow> (location_t list \<times> random_state) option" where
  "random_hampath_loop w h diagonal i s =
     (if i < 2 * SHUFFLE_FACTOR * (w * h) then
        (case random_hampath_step w h diagonal i s of
           None \<Rightarrow> None
         | Some s' \<Rightarrow> random_hampath_loop w h diagonal (i + 1) s')
      else Some s)"
  by pat_completeness auto
termination
  by (relation "measure (\<lambda>(w, h, diagonal, i, s). nat (2 * SHUFFLE_FACTOR * (w * h) - i))") auto

definition random_hampath ::
  "random_state \<Rightarrow> int \<Rightarrow> int \<Rightarrow> bool \<Rightarrow> (location_t list \<times> random_state) option" where
  "random_hampath rs w h diagonal =
     (case simple_hampath w h of
        None \<Rightarrow> None
      | Some path \<Rightarrow> random_hampath_loop w h diagonal 0 (path, rs))"

section \<open>The generator\<close>

text \<open>
  \<^verbatim>\<open>path_to_grid\<close> writes \<open>i + 1\<close> on the square of the \<open>i\<close>-th location. The C array is
  not initialised; the model starts from blank squares.
\<close>

definition path_to_grid :: "location_t list \<Rightarrow> int \<Rightarrow> int \<Rightarrow> int list" where
  "path_to_grid path w h =
     foldl (\<lambda>ret i. set_cell ret w (fst (path ! nat i)) (snd (path ! nat i)) (i + 1))
       (replicate (nat (w * h)) 0) [0 .. w * h - 1]"

datatype pattern_t = PATT_NONE | PATT_ROT2 | PATT_RING | PATT_BORDER

record game_params =
  gp_w :: int
  gp_h :: int
  gp_diagonal :: bool
  gp_keep_ends :: bool
  gp_pattern :: pattern_t
  gp_difficulty :: int

definition MAX_GAP_LENGTH :: int where
  "MAX_GAP_LENGTH = 9"

definition generator_steps_limit :: "game_params \<Rightarrow> int" where
  "generator_steps_limit params =
     (if gp_diagonal params then
        (if gp_pattern params = PATT_BORDER then 100
         else if gp_pattern params = PATT_RING then 1000
         else 80000)
      else
        (if gp_pattern params = PATT_ROT2 then 800000
         else if gp_pattern params = PATT_NONE then 300000
         else - 1))"

text \<open>The squares of the grid in the order of the loops \<^verbatim>\<open>for y ... for x ...\<close>.\<close>

definition grid_squares :: "int \<Rightarrow> int \<Rightarrow> location_t list" where
  "grid_squares w h = concat (map (\<lambda>y. map (\<lambda>x. (x, y)) [0 .. w - 1]) [0 .. h - 1])"

definition ring_mask :: "int list \<Rightarrow> int \<Rightarrow> int \<Rightarrow> int list" where
  "ring_mask g w h =
     foldl (\<lambda>g (x, y).
              if x = 0 \<or> x = w - 1 \<or> y = 0 \<or> y = h - 1
                 \<or> (x \<noteq> 1 \<and> x \<noteq> w - 2 \<and> y \<noteq> 1 \<and> y \<noteq> h - 2)
              then set_cell g w x y 0 else g)
       g (grid_squares w h)"

definition border_mask :: "int list \<Rightarrow> int \<Rightarrow> int \<Rightarrow> int list" where
  "border_mask g w h =
     foldl (\<lambda>g (x, y).
              if (x \<noteq> 0 \<and> x \<noteq> w - 1 \<and> y \<noteq> 0 \<and> y \<noteq> h - 1) \<or> (x + y) mod 2 = 1
              then set_cell g w x y 0 else g)
       g (grid_squares w h)"

text \<open>
  One round of the clue-removal loop: the clue is taken off the grid (with its partner
  under the half-turn for the symmetric pattern) and put back when the solver does not
  return TRUE. \<open>None\<close> is the failed assertion \<^verbatim>\<open>grid[ry * w + rx] == clue\<close>, or a solver
  call that does not return.
\<close>

definition remove_clue ::
  "game_params \<Rightarrow> location_t list \<Rightarrow> int \<Rightarrow> int \<Rightarrow> int \<Rightarrow> int list \<Rightarrow> int \<Rightarrow> int list option" where
  "remove_clue params path max_gap_length difficulty steps_limit g clue =
     (let w = gp_w params; h = gp_h params; area = w * h;
          rx = fst (path ! nat (clue - 1));
          ry = snd (path ! nat (clue - 1))
      in if cell g w rx ry \<noteq> clue then None
         else if gp_keep_ends params \<and> (clue = 1 \<or> clue = area) then Some g
         else
           (let sclue = (if gp_pattern params = PATT_ROT2 then cell g w (w - 1 - rx) (h - 1 - ry)
                         else 0)
            in if gp_pattern params = PATT_ROT2 \<and> gp_keep_ends params
                  \<and> (sclue = 1 \<or> sclue = area)
               then Some g
               else
                 (let g1 = (if gp_pattern params = PATT_ROT2
                            then set_cell g w (w - 1 - rx) (h - 1 - ry) 0 else g);
                      g2 = set_cell g1 w rx ry 0
                  in case solver g2 w h (gp_diagonal params) max_gap_length difficulty
                            steps_limit True of
                       None \<Rightarrow> None
                     | Some (Some solution) \<Rightarrow> Some g2
                     | Some None \<Rightarrow>
                         (let g3 = set_cell g2 w rx ry clue
                          in Some (if gp_pattern params = PATT_ROT2
                                   then set_cell g3 w (w - 1 - rx) (h - 1 - ry) sclue
                                   else g3)))))"

fun remove_clues ::
  "game_params \<Rightarrow> location_t list \<Rightarrow> int \<Rightarrow> int \<Rightarrow> int \<Rightarrow> int list \<Rightarrow> int list \<Rightarrow> int list option" where
  "remove_clues params path max_gap_length difficulty steps_limit g [] = Some g"
| "remove_clues params path max_gap_length difficulty steps_limit g (clue # clues) =
     (case remove_clue params path max_gap_length difficulty steps_limit g clue of
        None \<Rightarrow> None
      | Some g' \<Rightarrow> remove_clues params path max_gap_length difficulty steps_limit g' clues)"

text \<open>
  \<^verbatim>\<open>generate_puzzle\<close>: the \<^verbatim>\<open>while (TRUE)\<close> loop samples a path and, for the ring and
  border patterns, starts over when the masked grid is not solved; nothing bounds the
  number of rounds, hence a partial function. The other two patterns leave the loop
  after one round.
\<close>

partial_function (option) generate_puzzle_loop ::
  "game_params \<Rightarrow> random_state \<Rightarrow> int list option" where
  "generate_puzzle_loop params rs =
     (let w = gp_w params; h = gp_h params; area = w * h;
          steps_limit = generator_steps_limit params
      in case random_hampath rs w h (gp_diagonal params) of
           None \<Rightarrow> None
         | Some (path, rs1) \<Rightarrow>
             (let g = path_to_grid path w h
              in if gp_pattern params = PATT_RING then
                   (let g1 = ring_mask g w h
                    in case solver g1 w h (gp_diagonal params) MAX_GAP_LENGTH
                              (gp_difficulty params) steps_limit True of
                         None \<Rightarrow> None
                       | Some (Some solution) \<Rightarrow> Some g1
                       | Some None \<Rightarrow> generate_puzzle_loop params rs1)
                 else if gp_pattern params = PATT_BORDER then
                   (let g1 = border_mask g w h;
                        max_gap_length = max w h + (if gp_difficulty params = DIFF_HARD then 4 else 0)
                    in case solver g1 w h (gp_diagonal params) max_gap_length DIFF_HARD
                              steps_limit True of
                         None \<Rightarrow> None
                       | Some (Some solution) \<Rightarrow> Some g1
                       | Some None \<Rightarrow> generate_puzzle_loop params rs1)
                 else
                   (let clues_length = (if gp_pattern params = PATT_ROT2 then (area + 1) div 2
                                        else area);
                        (clues, rs2) = shuffle (take (nat area) g) clues_length rs1
                    in remove_clues params path MAX_GAP_LENGTH (gp_difficulty params) steps_limit g
                         (take (nat clues_length) clues))))"

declare generate_puzzle_loop.simps [code]

definition generate_puzzle :: "game_params \<Rightarrow> random_state \<Rightarrow> int list option" where
  "generate_puzzle params rs = generate_puzzle_loop params rs"

section \<open>What the specification talks about\<close>

text \<open>
  The square with row-major index \<open>i\<close> has the coordinates (\<open>i mod w\<close>, \<open>i div w\<close>).
  A grid is a complete numbering when it has \<open>w * h\<close> cells and holds each of the numbers
  \<open>1 .. w * h\<close> exactly once; it is a Hamiltonian numbering when moreover the squares of
  \<open>n\<close> and \<open>n + 1\<close> are always at distance 1 under the adjacency mode. A grid \<open>s\<close>
  completes a grid \<open>g\<close> when it agrees with \<open>g\<close> on every square of \<open>g\<close> that is not
  blank.
\<close>

definition complete_numbering :: "int \<Rightarrow> int \<Rightarrow> int list \<Rightarrow> bool" where
  "complete_numbering w h s \<longleftrightarrow>
     length s = nat (w * h) \<and> distinct s \<and> set s = {1 .. w * h}"

definition consecutive_adjacent :: "int \<Rightarrow> bool \<Rightarrow> int list \<Rightarrow> bool" where
  "consecutive_adjacent w diagonal s \<longleftrightarrow>
     (\<forall>i \<in> {..< length s}. \<forall>j \<in> {..< length s}.
        s ! i \<noteq> 0 \<and> s ! j = s ! i + 1 \<longrightarrow>
        distance (int i mod w) (int i div w) (int j mod w) (int j div w) diagonal = 1)"

definition hamiltonian_numbering :: "int \<Rightarrow> int \<Rightarrow> bool \<Rightarrow> int list \<Rightarrow> bool" where
  "hamiltonian_numbering w h diagonal s \<longleftrightarrow>
     complete_numbering w h s \<and> consecutive_adjacent w diagonal s"

definition keeps_clues :: "int list \<Rightarrow> int list \<Rightarrow> bool" where
  "keeps_clues g s \<longleftrightarrow>
     length s = length g \<and> (\<forall>i \<in> {..< length g}. g ! i \<noteq> 0 \<longrightarrow> s ! i = g ! i)"

definition completion :: "int list \<Rightarrow> int \<Rightarrow> int \<Rightarrow> bool \<Rightarrow> int list \<Rightarrow> bool" where
  "completion g w h diagonal s \<longleftrightarrow> keeps_clues g s \<and> hamiltonian_numbering w h diagonal s"

text \<open>
  What the propagation loop alone makes of a grid: the solution when
  \<^verbatim>\<open>do_necessary_moves\<close> returns TRUE and leaves no gap, no solution otherwise.
\<close>

definition propagation_result ::
  "int list \<Rightarrow> int \<Rightarrow> int \<Rightarrow> bool \<Rightarrow> int \<Rightarrow> int list option option" where
  "propagation_result g w h diagonal steps_limit =
     (case init_solver_state g w h diagonal steps_limit of
        None \<Rightarrow> None
      | Some (state, longest_gap_length) \<Rightarrow>
          (case do_necessary_moves state of
             None \<Rightarrow> None
           | Some (ok, state') \<Rightarrow>
               if ok \<and> st_gaps state' = [] then Some (Some (st_grid state')) else Some None))"

text \<open>The puzzle of the header comment of hamilton.c and its solution.\<close>

definition example_puzzle :: "int list" where
  "example_puzzle = [0, 0, 4, 3,  0, 0, 0, 0,  0, 7, 0, 9,  0, 0, 0, 0]"

definition example_solution :: "int list" where
  "example_solution = [16, 5, 4, 3,  15, 6, 1, 2,  14, 7, 8, 9,  13, 12, 11, 10]"

text \<open>
  A gap index is quiet in a state when neither rule moves there: both
  \<^verbatim>\<open>do_straight_path\<close> and \<^verbatim>\<open>do_only_move\<close> return DIDNT_MOVE.
\<close>

definition quiet_at :: "solver_state_t \<Rightarrow> nat \<Rightarrow> bool" where
  "quiet_at st g \<longleftrightarrow>
     map_option fst (do_straight_path st g) = Some DIDNT_MOVE
     \<and> map_option fst (do_only_move st g) = Some DIDNT_MOVE"

text \<open>
  The straight-path rule in the words of the specification. The numeric span of a gap is
  \<open>n2 - n1\<close>. \<open>straight_path_applies_as_stated\<close> reads the sentence of the specification
  literally: the anchors are horizontally or vertically aligned, or (with diagonal moves)
  diagonally aligned, and their distance is the span. \<open>straight_path_applies\<close> separates
  the two modes: without diagonal moves the anchors share a row or a column, with diagonal
  moves they lie on a diagonal. The \<open>k\<close>-th square on the line from \<open>l1\<close> towards \<open>l2\<close> is
  \<open>line_square gap k\<close>; \<open>fill_line st gap k\<close> is the state with the numbers
  \<open>n1 + 1 .. n1 + k\<close> written on the first \<open>k\<close> of these squares; the \<open>k\<close>-th placement
  fails when its square is occupied or when the blocked-number check trips after it.
\<close>

definition gap_span :: "gap_t \<Rightarrow> int" where
  "gap_span gap = n2 gap - n1 gap"

definition straight_path_applies_as_stated :: "bool \<Rightarrow> gap_t \<Rightarrow> bool" where
  "straight_path_applies_as_stated diagonal gap \<longleftrightarrow>
     (let dx = fst (l2 gap) - fst (l1 gap); dy = snd (l2 gap) - snd (l1 gap)
      in (dx = 0 \<or> dy = 0 \<or> (diagonal \<and> \<bar>dx\<bar> = \<bar>dy\<bar>))
         \<and> distance (fst (l1 gap)) (snd (l1 gap)) (fst (l2 gap)) (snd (l2 gap)) diagonal
             = gap_span gap)"

definition straight_path_applies :: "bool \<Rightarrow> gap_t \<Rightarrow> bool" where
  "straight_path_applies diagonal gap \<longleftrightarrow>
     (let dx = fst (l2 gap) - fst (l1 gap); dy = snd (l2 gap) - snd (l1 gap)
      in (if diagonal then \<bar>dx\<bar> = \<bar>dy\<bar> else dx = 0 \<or> dy = 0)
         \<and> distance (fst (l1 gap)) (snd (l1 gap)) (fst (l2 gap)) (snd (l2 gap)) diagonal
             = gap_span gap)"

definition line_square :: "gap_t \<Rightarrow> nat \<Rightarrow> location_t" where
  "line_square gap k =
     (fst (l1 gap) + int k * sgn (fst (l2 gap) - fst (l1 gap)),
      snd (l1 gap) + int k * sgn (snd (l2 gap) - snd (l1 gap)))"

primrec fill_line :: "solver_state_t \<Rightarrow> gap_t \<Rightarrow> nat \<Rightarrow> solver_state_t" where
  "fill_line st gap 0 = st"
| "fill_line st gap (Suc k) =
     (fill_line st gap k)\<lparr>st_grid :=
        set_cell (st_grid (fill_line st gap k)) (st_w st)
          (fst (line_square gap (Suc k))) (snd (line_square gap (Suc k)))
          (n1 gap + int (Suc k))\<rparr>"

definition placement_fails :: "solver_state_t \<Rightarrow> gap_t \<Rightarrow> nat \<Rightarrow> bool" where
  "placement_fails st gap k \<longleftrightarrow>
     cell (st_grid (fill_line st gap (k - 1))) (st_w st)
       (fst (line_square gap k)) (snd (line_square gap k)) \<noteq> 0
     \<or> check_blocked_numbers_nearby (fill_line st gap k)
          (fst (line_square gap k)) (snd (line_square gap k)) = Some True"

text \<open>
  In every state that the solver builds, the upper anchor of a gap stands on the number
  \<open>n2\<close> of the gap, so that the assertion of \<^verbatim>\<open>check_blocked_number\<close> holds. The
  statements about all states ask for this much: a present upper anchor holds a number.
\<close>

definition upper_anchors_numbered :: "solver_state_t \<Rightarrow> bool" where
  "upper_anchors_numbered st \<longleftrightarrow>
     (\<forall>gap \<in> set (st_gaps st). fst (l2 gap) \<noteq> NO_COORD \<longrightarrow>
        cell (st_grid st) (st_w st) (fst (l2 gap)) (snd (l2 gap)) > 0)"

text \<open>
  The blocked-number check in the words of the specification. A square next to \<open>c\<close> is
  available when it is empty or holds the number before or after the one on \<open>c\<close>.
  \<open>blocked_as_stated\<close> is the condition of the specification on one placed number: a
  number with missing numbers on both sides needs two available squares, the two ends of
  the path (1 and \<open>area\<close>) need one.
\<close>

definition on_grid :: "int \<Rightarrow> int \<Rightarrow> location_t \<Rightarrow> bool" where
  "on_grid w h c \<longleftrightarrow> 0 \<le> fst c \<and> fst c < w \<and> 0 \<le> snd c \<and> snd c < h"

definition available :: "int list \<Rightarrow> int \<Rightarrow> int \<Rightarrow> location_t \<Rightarrow> bool" where
  "available g w n c \<longleftrightarrow>
     cell g w (fst c) (snd c) = 0 \<or> cell g w (fst c) (snd c) = n - 1
     \<or> cell g w (fst c) (snd c) = n + 1"




text \<open>
  A grid as the program stores it: \<open>w * h\<close> cells holding numbers from 0 (no number) to
  \<open>w * h\<close>. Numbers and coordinates are unsigned characters and 255 is NO_COORD, so the
  grid has no more than 254 cells (the game accepts no more than NUMBER_MAX = 99).
\<close>

definition valid_grid :: "int list \<Rightarrow> int \<Rightarrow> int \<Rightarrow> bool" where
  "valid_grid g w h \<longleftrightarrow>
     0 < w \<and> 0 < h \<and> w * h \<le> 254 \<and> length g = nat (w * h)
     \<and> (\<forall>v \<in> set g. 0 \<le> v \<and> v \<le> w * h)"

text \<open>
  Invariants of \<^verbatim>\<open>compute_number_to_location_map\<close> and of the loop of \<^verbatim>\<open>compute_gaps\<close>.
  \<open>locates g w h S m\<close>: the map \<open>m\<close> is right for the numbers on the squares \<open>S\<close> visited so
  far. \<open>closed_gap m gap\<close>: the gap lies between two numbers of the map, with no number of
  the map in between, and its anchors are their locations. \<open>gaps_cover m lo hi gs\<close>: the
  list \<open>gs\<close> of closed gaps is ordered, lies between \<open>lo\<close> and \<open>hi\<close>, and the numbers from
  \<open>lo\<close> to \<open>hi\<close> that the map does not have are the ones inside its gaps.
\<close>

definition locates :: "int list \<Rightarrow> int \<Rightarrow> int \<Rightarrow> location_t set \<Rightarrow> location_t list \<Rightarrow> bool" where
  "locates g w h S m \<longleftrightarrow>
     length m = nat (w * h + 1) \<and> m ! 0 = (NO_COORD, NO_COORD)
     \<and> (\<forall>n. 0 < n \<and> n \<le> w * h \<longrightarrow>
          (if \<exists>c \<in> S. cell g w (fst c) (snd c) = n
           then m ! nat n \<in> S \<and> cell g w (fst (m ! nat n)) (snd (m ! nat n)) = n
           else m ! nat n = (NO_COORD, NO_COORD)))"

definition closed_gap :: "location_t list \<Rightarrow> gap_t \<Rightarrow> bool" where
  "closed_gap m gap \<longleftrightarrow>
     n1 gap + 1 < n2 gap
     \<and> (\<forall>k. n1 gap < k \<and> k < n2 gap \<longrightarrow> fst (m ! nat k) = NO_COORD)
     \<and> fst (m ! nat (n1 gap)) \<noteq> NO_COORD \<and> l1 gap = m ! nat (n1 gap)
     \<and> fst (m ! nat (n2 gap)) \<noteq> NO_COORD \<and> l2 gap = m ! nat (n2 gap)"

definition gaps_cover :: "location_t list \<Rightarrow> int \<Rightarrow> int \<Rightarrow> gap_t list \<Rightarrow> bool" where
  "gaps_cover m lo hi gs \<longleftrightarrow>
     sorted_wrt (\<lambda>a b. n2 a \<le> n1 b) gs
     \<and> (\<forall>gap \<in> set gs. closed_gap m gap \<and> lo \<le> n1 gap \<and> n2 gap \<le> hi)
     \<and> (\<forall>k. lo \<le> k \<and> k \<le> hi \<longrightarrow>
          (fst (m ! nat k) = NO_COORD \<longleftrightarrow> (\<exists>gap \<in> set gs. n1 gap < k \<and> k < n2 gap)))"

text \<open>
  Two squares are adjacent when they are at distance 1 under the adjacency mode. A
  Hamiltonian path of the grid is a list of \<open>w * h\<close> locations that visits every square of
  the grid once and moves to an adjacent square at every step.
\<close>

definition adjacent :: "bool \<Rightarrow> location_t \<Rightarrow> location_t \<Rightarrow> bool" where
  "adjacent diagonal c d \<longleftrightarrow> distance (fst c) (snd c) (fst d) (snd d) diagonal = 1"

definition hamiltonian_path :: "int \<Rightarrow> int \<Rightarrow> bool \<Rightarrow> location_t list \<Rightarrow> bool" where
  "hamiltonian_path w h diagonal p \<longleftrightarrow>
     length p = nat (w * h) \<and> distinct p \<and> set p = {c. on_grid w h c}
     \<and> successively (adjacent diagonal) p"

section \<open>Properties of the solver entry point\<close>

subsection \<open>The 4 x 4 example\<close>

lemma example_gaps:
  "compute_gaps example_puzzle 4 4 = Some
     ([\<lparr>n1 = 0, n2 = 3, l1 = (255, 255), l2 = (3, 0)\<rparr>,
       \<lparr>n1 = 4, n2 = 7, l1 = (2, 0), l2 = (1, 2)\<rparr>,
       \<lparr>n1 = 7, n2 = 9, l1 = (1, 2), l2 = (3, 2)\<rparr>,
       \<lparr>n1 = 9, n2 = 17, l1 = (3, 2), l2 = (255, 255)\<rparr>], 7)"
  by code_simp

lemma example_init:
  "init_solver_state example_puzzle 4 4 False steps_limit = Some
     (\<lparr>st_w = 4, st_h = 4, st_diagonal = False, st_steps_limit = steps_limit,
       st_grid = example_puzzle,
       st_gaps = [\<lparr>n1 = 0, n2 = 3, l1 = (255, 255), l2 = (3, 0)\<rparr>,
                  \<lparr>n1 = 4, n2 = 7, l1 = (2, 0), l2 = (1, 2)\<rparr>,
                  \<lparr>n1 = 7, n2 = 9, l1 = (1, 2), l2 = (3, 2)\<rparr>,
                  \<lparr>n1 = 9, n2 = 17, l1 = (3, 2), l2 = (255, 255)\<rparr>]\<rparr>, 7)"
  by (simp add: init_solver_state_def example_gaps) (simp add: example_puzzle_def)

lemma example_propagation:
  "do_necessary_moves
     \<lparr>st_w = 4, st_h = 4, st_diagonal = False, st_steps_limit = steps_limit,
       st_grid = example_puzzle,
       st_gaps = [\<lparr>n1 = 0, n2 = 3, l1 = (255, 255), l2 = (3, 0)\<rparr>,
                  \<lparr>n1 = 4, n2 = 7, l1 = (2, 0), l2 = (1, 2)\<rparr>,
                  \<lparr>n1 = 7, n2 = 9, l1 = (1, 2), l2 = (3, 2)\<rparr>,
                  \<lparr>n1 = 9, n2 = 17, l1 = (3, 2), l2 = (255, 255)\<rparr>]\<rparr>
   = Some (True, \<lparr>st_w = 4, st_h = 4, st_diagonal = False, st_steps_limit = steps_limit,
                   st_grid = example_solution, st_gaps = []\<rparr>)"
  by code_simp

text \<open>
  The four sort keys of the example are 507, 3, 2 and 505: no two gaps tie, so the order
  after \<^verbatim>\<open>qsort\<close> does not depend on how ties are broken.
\<close>

lemma example_sorted:
  "\<lparr>st_w = 4, st_h = 4, st_diagonal = False, st_steps_limit = steps_limit,
     st_grid = example_puzzle,
     st_gaps = [\<lparr>n1 = 0, n2 = 3, l1 = (255, 255), l2 = (3, 0)\<rparr>,
                \<lparr>n1 = 4, n2 = 7, l1 = (2, 0), l2 = (1, 2)\<rparr>,
                \<lparr>n1 = 7, n2 = 9, l1 = (1, 2), l2 = (3, 2)\<rparr>,
                \<lparr>n1 = 9, n2 = 17, l1 = (3, 2), l2 = (255, 255)\<rparr>]\<rparr>
   \<lparr>st_gaps := sort_key (gap_distance False) (st_gaps
     \<lparr>st_w = 4, st_h = 4, st_diagonal = False, st_steps_limit = steps_limit,
       st_grid = example_puzzle,
       st_gaps = [\<lparr>n1 = 0, n2 = 3, l1 = (255, 255), l2 = (3, 0)\<rparr>,
                  \<lparr>n1 = 4, n2 = 7, l1 = (2, 0), l2 = (1, 2)\<rparr>,
                  \<lparr>n1 = 7, n2 = 9, l1 = (1, 2), l2 = (3, 2)\<rparr>,
                  \<lparr>n1 = 9, n2 = 17, l1 = (3, 2), l2 = (255, 255)\<rparr>]\<rparr>)\<rparr>
   = \<lparr>st_w = 4, st_h = 4, st_diagonal = False, st_steps_limit = steps_limit,
       st_grid = example_puzzle,
       st_gaps = [\<lparr>n1 = 7, n2 = 9, l1 = (1, 2), l2 = (3, 2)\<rparr>,
                  \<lparr>n1 = 4, n2 = 7, l1 = (2, 0), l2 = (1, 2)\<rparr>,
                  \<lparr>n1 = 9, n2 = 17, l1 = (3, 2), l2 = (255, 255)\<rparr>,
                  \<lparr>n1 = 0, n2 = 3, l1 = (255, 255), l2 = (3, 0)\<rparr>]\<rparr>"
  by code_simp

lemma example_propagation_sorted:
  "do_necessary_moves
     \<lparr>st_w = 4, st_h = 4, st_diagonal = False, st_steps_limit = steps_limit,
       st_grid = example_puzzle,
       st_gaps = [\<lparr>n1 = 7, n2 = 9, l1 = (1, 2), l2 = (3, 2)\<rparr>,
                  \<lparr>n1 = 4, n2 = 7, l1 = (2, 0), l2 = (1, 2)\<rparr>,
                  \<lparr>n1 = 9, n2 = 17, l1 = (3, 2), l2 = (255, 255)\<rparr>,
                  \<lparr>n1 = 0, n2 = 3, l1 = (255, 255), l2 = (3, 0)\<rparr>]\<rparr>
   = Some (True, \<lparr>st_w = 4, st_h = 4, st_diagonal = False, st_steps_limit = steps_limit,
                   st_grid = example_solution, st_gaps = []\<rparr>)"
  by code_simp

text \<open>
  Claim C9. On the 4 x 4 grid with the clues 4 at (2,0), 3 at (3,0), 7 at (1,2) and 9 at
  (3,2), diagonal moves disabled, the solver called with \<open>unique_only\<close> returns TRUE and
  exactly the grid 16 5 4 3 / 15 6 1 2 / 14 7 8 9 / 13 12 11 10. This holds for either
  difficulty and every step limit, and for every \<open>max_gap_length\<close> that does not cut the
  puzzle off (its longest gap is 7).
\<close>

theorem solver_example:
  assumes "max_gap_length \<le> 0 \<or> 7 \<le> max_gap_length"
  shows "solver example_puzzle 4 4 False max_gap_length max_difficulty steps_limit True
           = Some (Some example_solution)"
proof (cases "max_difficulty = DIFF_EASY")
  case True
  then show ?thesis
    using assms by (auto simp add: solver_def example_init example_propagation)
next
  case False
  then show ?thesis
    using assms
    unfolding solver_def example_init option.case prod.case example_sorted
    apply (subst do_recursive_solve.simps)
    apply (auto simp add: example_propagation_sorted Let_def)
    done
qed

theorem solver_example_witness:
  "solver [0, 0, 4, 3,  0, 0, 0, 0,  0, 7, 0, 9,  0, 0, 0, 0] 4 4 False (- 1) DIFF_HARD (- 1) True
     = Some (Some [16, 5, 4, 3,  15, 6, 1, 2,  14, 7, 8, 9,  13, 12, 11, 10])"
  using solver_example [of "- 1" DIFF_HARD "- 1"]
  by (simp add: example_puzzle_def example_solution_def)

subsection \<open>Easy difficulty\<close>

text \<open>
  Claim C10 as stated: at easy difficulty the solver returns a solution exactly when the
  propagation loop alone succeeds with no gap left. It fails on the 2 x 2 grid 1 2 / . .
  with \<open>max_gap_length = 1\<close>: propagation alone solves the grid, but its longest gap has
  length 2 and the solver returns FALSE before it looks at the difficulty.
\<close>

theorem easy_solver_gap_limit_counterexample:
  "solver [1, 2, 0, 0] 2 2 False 1 DIFF_EASY (- 1) True = Some None
   \<and> propagation_result [1, 2, 0, 0] 2 2 False (- 1) = Some (Some [1, 2, 4, 3])"
  by code_simp

text \<open>
  Claim C10, amended. At easy difficulty the result of the solver does not depend on
  \<open>unique_only\<close>, and it is: no result when \<^verbatim>\<open>compute_gaps\<close> fails its assertion, FALSE
  when \<open>max_gap_length\<close> is positive and exceeded by the longest gap, and otherwise what
  the propagation loop alone gives (the solution when it succeeds with no gap left).
  \<^verbatim>\<open>do_recursive_solve\<close>, which holds the check for a second solution, does not occur.
\<close>

theorem easy_solver:
  "solver g w h diagonal max_gap_length DIFF_EASY steps_limit True
     = solver g w h diagonal max_gap_length DIFF_EASY steps_limit False
   \<and> solver g w h diagonal max_gap_length DIFF_EASY steps_limit unique_only
     = (case compute_gaps g w h of
          None \<Rightarrow> None
        | Some (gs, longest_gap_length) \<Rightarrow>
            if max_gap_length > 0 \<and> longest_gap_length > max_gap_length then Some None
            else propagation_result g w h diagonal steps_limit)"
  by (simp add: solver_def propagation_result_def init_solver_state_def
           split: option.splits prod.splits)

theorem easy_solver_witness:
  "solver [1, 2, 0, 0] 2 2 False 1 DIFF_EASY (- 1) False = Some None"
  using easy_solver [of "[1, 2, 0, 0]" 2 2 False 1 "- 1" True]
        easy_solver_gap_limit_counterexample
  by simp

subsection \<open>A puzzle with one completion that the solver does not solve\<close>

lemma list_of_length_4:
  "length s = 4 \<Longrightarrow> \<exists>a b c e. s = [a, b, c, e]"
  by (auto simp add: length_Suc_conv eval_nat_numeral)

lemma only_completion_2x2:
  assumes "completion [1, 0, 4, 0] 2 2 False s"
  shows "s = [1, 2, 4, 3]"
proof -
  from assms have len: "length s = 4" and s0: "s ! 0 = 1" and s2: "s ! 2 = 4"
    and d: "distinct s" and st: "set s = {1 .. 4}"
    and adj: "consecutive_adjacent 2 False s"
    by (auto simp add: completion_def keeps_clues_def hamiltonian_numbering_def
          complete_numbering_def)
  from list_of_length_4 [OF len] obtain a b c e where s: "s = [a, b, c, e]" by blast
  with s0 s2 have a: "a = 1" and c: "c = 4" by simp_all
  have "{1 .. 4 :: int} = {1, 2, 3, 4}" by auto
  with st s a c d have be: "(b = 2 \<and> e = 3) \<or> (b = 3 \<and> e = 2)"
    by auto
  have "\<not> (b = 3 \<and> e = 2)"
  proof
    assume "b = 3 \<and> e = 2"
    with s a have "s ! 0 \<noteq> 0 \<and> s ! 3 = s ! 0 + 1" by simp
    moreover have "(0::nat) \<in> {..< length s}" "(3::nat) \<in> {..< length s}"
      using len by simp_all
    ultimately have "distance (int 0 mod 2) (int 0 div 2) (int 3 mod 2) (int 3 div 2) False = 1"
      using adj unfolding consecutive_adjacent_def by blast
    then show False
      by (simp add: distance_def manhattan_distance_def)
  qed
  with be s a c show ?thesis by simp
qed

lemma completion_2x2:
  "completion [1, 0, 4, 0] 2 2 False [1, 2, 4, 3]"
  by (simp add: completion_def keeps_clues_def hamiltonian_numbering_def
        complete_numbering_def consecutive_adjacent_def distance_def manhattan_distance_def
        lessThan_nat_numeral lessThan_Suc nth_Cons')
     auto

text \<open>
  Claim C1 says that the solver called with \<open>unique_only\<close> returns a solution when exactly
  one completion exists. On the 2 x 2 grid 1 . / 4 . with a step limit of 1000 the code
  returns FALSE, although 1 2 / 4 3 is a completion, and by \<open>only_completion_2x2\<close> the
  only one. The propagation places 2 and then 3; the 3 lands next to the 4, and
  \<^verbatim>\<open>check_blocked_number\<close> asks for two available squares around the 4, which as the last
  number of the path needs only one (as the comment above that function says).
\<close>

theorem solver_misses_unique_completion:
  "solver [1, 0, 4, 0] 2 2 False (- 1) DIFF_HARD 1000 True = Some None
   \<and> completion [1, 0, 4, 0] 2 2 False [1, 2, 4, 3]"
proof
  show "solver [1, 0, 4, 0] 2 2 False (- 1) DIFF_HARD 1000 True = Some None"
    by code_simp
  show "completion [1, 0, 4, 0] 2 2 False [1, 2, 4, 3]"
    by (rule completion_2x2)
qed

section \<open>The propagation loop\<close>

subsection \<open>Idempotence\<close>

text \<open>
  When the loop returns TRUE, its last pass over the gaps found every index quiet in
  the state it returns: a pass that moves sets \<open>changed\<close> and is followed by another one.
\<close>

lemma necessary_moves_loop_quiet:
  assumes "necessary_moves_loop st g changed = Some y"
  shows "fst y \<longrightarrow> (\<not> changed \<longrightarrow> (\<forall>g' < g. quiet_at st g')) \<longrightarrow>
           (\<forall>g' < length (st_gaps (snd y)). quiet_at (snd y) g')"
  using assms
proof (induction st g changed y rule: necessary_moves_loop.raw_induct [rotated 1, consumes 1])
  case (1 loop st g changed y)
  show ?case
  proof (cases "g < length (st_gaps st)")
    case past_end: False
    show ?thesis
    proof (cases changed)
      case True
      with past_end 1(2) have "loop st 0 False = Some y" by simp
      from 1(1) [OF this] show ?thesis by simp
    next
      case unchanged: False
      with past_end 1(2) have "y = (True, st)" by simp
      with past_end unchanged show ?thesis by auto
    qed
  next
    case inside: True
    from inside 1(2) obtain r1 s1 where sp: "do_straight_path st g = Some (r1, s1)"
      by (cases "do_straight_path st g") auto
    show ?thesis
    proof (cases r1)
      case UNSOLVABLE
      with inside sp 1(2) show ?thesis by auto
    next
      case MOVED
      with inside sp 1(2) have "loop s1 g True = Some y" by simp
      from 1(1) [OF this] show ?thesis by simp
    next
      case d1: DIDNT_MOVE
      from inside sp d1 1(2) obtain r2 s2 where om: "do_only_move st g = Some (r2, s2)"
        by (cases "do_only_move st g") auto
      show ?thesis
      proof (cases r2)
        case UNSOLVABLE
        with inside sp om d1 1(2) show ?thesis by auto
      next
        case MOVED
        with inside sp om d1 1(2) have "loop s2 g True = Some y" by simp
        from 1(1) [OF this] show ?thesis by simp
      next
        case d2: DIDNT_MOVE
        with inside sp om d1 1(2) have "loop st (Suc g) changed = Some y" by simp
        from 1(1) [OF this] have
          "fst y \<longrightarrow> (\<not> changed \<longrightarrow> (\<forall>g' < Suc g. quiet_at st g')) \<longrightarrow>
             (\<forall>g' < length (st_gaps (snd y)). quiet_at (snd y) g')" .
        moreover have "quiet_at st g"
          using sp om d1 d2 by (simp add: quiet_at_def)
        ultimately show ?thesis by (auto simp add: less_Suc_eq)
      qed
    qed
  qed
qed

text \<open>On a state where every index is quiet, one pass ends the loop and changes nothing.\<close>

lemma quiet_necessary_moves_loop:
  assumes "\<forall>g' < length (st_gaps st). quiet_at st g'"
  shows "necessary_moves_loop st g False = Some (True, st)"
proof (induction "length (st_gaps st) - g" arbitrary: g)
  case 0
  then show ?case by (subst necessary_moves_loop.simps) simp
next
  case (Suc k)
  then have lt: "g < length (st_gaps st)" by simp
  with assms have q: "quiet_at st g" by simp
  from q obtain s1 s2 where "do_straight_path st g = Some (DIDNT_MOVE, s1)"
    "do_only_move st g = Some (DIDNT_MOVE, s2)"
    by (auto simp add: quiet_at_def)
  moreover from Suc have "k = length (st_gaps st) - Suc g" by simp
  from Suc(1) [OF this] have "necessary_moves_loop st (Suc g) False = Some (True, st)" .
  ultimately show ?case using lt
    by (subst necessary_moves_loop.simps) simp
qed

text \<open>
  Claim C7. The propagation loop is idempotent: when \<^verbatim>\<open>do_necessary_moves\<close> returns
  TRUE and leaves the state \<open>st'\<close>, running it again on \<open>st'\<close> returns TRUE and leaves
  \<open>st'\<close> as it is (the same grid, the same gap list).
\<close>

theorem do_necessary_moves_idempotent:
  assumes "do_necessary_moves st = Some (True, st')"
  shows "do_necessary_moves st' = Some (True, st')"
proof -
  from assms have "necessary_moves_loop st 0 False = Some (True, st')"
    by (simp add: do_necessary_moves_def)
  from necessary_moves_loop_quiet [OF this]
  have "\<forall>g' < length (st_gaps st'). quiet_at st' g'" by simp
  from quiet_necessary_moves_loop [OF this] show ?thesis
    by (simp add: do_necessary_moves_def)
qed

lemma propagation_3x3:
  "do_necessary_moves
     \<lparr>st_w = 3, st_h = 3, st_diagonal = False, st_steps_limit = - 1,
       st_grid = [1, 2, 3,  0, 0, 0,  0, 0, 0],
       st_gaps = [\<lparr>n1 = 3, n2 = 10, l1 = (2, 0), l2 = (255, 255)\<rparr>]\<rparr>
   = Some (True,
       \<lparr>st_w = 3, st_h = 3, st_diagonal = False, st_steps_limit = - 1,
         st_grid = [1, 2, 3,  0, 0, 4,  0, 0, 0],
         st_gaps = [\<lparr>n1 = 4, n2 = 10, l1 = (2, 1), l2 = (255, 255)\<rparr>]\<rparr>)"
  by code_simp

theorem do_necessary_moves_idempotent_witness:
  "do_necessary_moves
     \<lparr>st_w = 3, st_h = 3, st_diagonal = False, st_steps_limit = - 1,
       st_grid = [1, 2, 3,  0, 0, 4,  0, 0, 0],
       st_gaps = [\<lparr>n1 = 4, n2 = 10, l1 = (2, 1), l2 = (255, 255)\<rparr>]\<rparr>
   = Some (True,
       \<lparr>st_w = 3, st_h = 3, st_diagonal = False, st_steps_limit = - 1,
         st_grid = [1, 2, 3,  0, 0, 4,  0, 0, 0],
         st_gaps = [\<lparr>n1 = 4, n2 = 10, l1 = (2, 1), l2 = (255, 255)\<rparr>]\<rparr>)"
  using do_necessary_moves_idempotent [OF propagation_3x3] .

subsection \<open>The straight-path rule\<close>

declare straight_path_loop.simps [simp del]

lemma st_w_fill_line [simp]: "st_w (fill_line st gap k) = st_w st"
  by (induction k) simp_all

lemma st_gaps_fill_line [simp]: "st_gaps (fill_line st gap k) = st_gaps st"
  by (induction k) simp_all

lemma straight_path_direction_None:
  "straight_path_direction diagonal gap = None \<longleftrightarrow> \<not> straight_path_applies diagonal gap"
  by (auto simp add: straight_path_direction_def straight_path_applies_def Let_def gap_span_def
        distance_def chebyshev_distance_def manhattan_distance_def)

lemma straight_path_direction_Some:
  assumes "straight_path_direction diagonal gap = Some (sx, sy)" and "1 < gap_span gap"
  shows "sx = sgn (fst (l2 gap) - fst (l1 gap)) \<and> sy = sgn (snd (l2 gap) - snd (l1 gap))"
  using assms
  by (auto simp add: straight_path_direction_def Let_def gap_span_def sgn_if
        split: if_splits)

text \<open>
  With a number on every present upper anchor the check does not abort, and writing on a
  blank square leaves the numbers on the anchors where they are.
\<close>

lemma check_blocked_gaps_returns:
  assumes "\<forall>gap \<in> set gs. fst (l2 gap) \<noteq> NO_COORD \<longrightarrow>
             cell (st_grid st) (st_w st) (fst (l2 gap)) (snd (l2 gap)) > 0"
  shows "\<exists>b. check_blocked_gaps st x y gs = Some b"
  using assms
  by (induction gs) (auto simp add: check_blocked_number_def Let_def split: bool.splits)

lemma check_blocked_numbers_nearby_returns:
  assumes "upper_anchors_numbered st"
  shows "\<exists>b. check_blocked_numbers_nearby st x y = Some b"
  using assms check_blocked_gaps_returns [of "st_gaps st" st x y]
  by (simp add: upper_anchors_numbered_def check_blocked_numbers_nearby_def)

lemma upper_anchors_numbered_write:
  assumes "upper_anchors_numbered st" and "cell (st_grid st) (st_w st) x y = 0"
  shows "upper_anchors_numbered (st\<lparr>st_grid := set_cell (st_grid st) (st_w st) x y v\<rparr>)"
  unfolding upper_anchors_numbered_def
proof (intro ballI impI)
  fix gap
  assume "gap \<in> set (st_gaps (st\<lparr>st_grid := set_cell (st_grid st) (st_w st) x y v\<rparr>))"
    and "fst (l2 gap) \<noteq> NO_COORD"
  with assms(1) have pos: "cell (st_grid st) (st_w st) (fst (l2 gap)) (snd (l2 gap)) > 0"
    by (simp add: upper_anchors_numbered_def)
  with assms(2) have "nat (snd (l2 gap) * st_w st + fst (l2 gap)) \<noteq> nat (y * st_w st + x)"
    by (auto simp add: cell_def)
  with pos show "0 < cell (st_grid (st\<lparr>st_grid := set_cell (st_grid st) (st_w st) x y v\<rparr>))
                    (st_w (st\<lparr>st_grid := set_cell (st_grid st) (st_w st) x y v\<rparr>))
                    (fst (l2 gap)) (snd (l2 gap))"
    by (simp add: cell_def set_cell_def)
qed

lemma straight_path_loop_fill_line:
  assumes "k \<le> m" and "m = nat (gap_span gap - 1)"
    and "sx = sgn (fst (l2 gap) - fst (l1 gap))" and "sy = sgn (snd (l2 gap) - snd (l1 gap))"
    and "upper_anchors_numbered (fill_line st gap k)"
  shows "\<exists>r st'. straight_path_loop (fill_line st gap k)
           (fst (line_square gap k)) (snd (line_square gap k)) sx sy
           (n1 gap + 1 + int k) (n2 gap) = Some (r, st')
         \<and> (r \<longleftrightarrow> \<not> (\<exists>j. k < j \<and> j \<le> m \<and> placement_fails st gap j))
         \<and> (r \<longrightarrow> st' = fill_line st gap m)"
  using assms(1,5)
proof (induction "m - k" arbitrary: k)
  case 0
  then have "k = m" by simp
  with assms(2) have "\<not> n1 gap + 1 + int k < n2 gap" by (simp add: gap_span_def)
  with \<open>k = m\<close> show ?case
    by (subst straight_path_loop.simps) auto
next
  case (Suc d)
  then have lt: "k < m" by simp
  with assms(2) have run: "n1 gap + 1 + int k < n2 gap" by (simp add: gap_span_def)
  let ?x = "fst (line_square gap (Suc k))" and ?y = "snd (line_square gap (Suc k))"
  let ?st = "fill_line st gap k"
  have sq: "fst (line_square gap k) + sx = ?x" "snd (line_square gap k) + sy = ?y"
    using assms(3,4) by (simp_all add: line_square_def algebra_simps)
  have n: "n1 gap + 1 + int k = n1 gap + int (Suc k)" by simp
  show ?case
  proof (cases "cell (st_grid ?st) (st_w st) ?x ?y \<noteq> 0")
    case True
    then have "placement_fails st gap (Suc k)" by (simp add: placement_fails_def)
    with lt have ex: "\<exists>j. k < j \<and> j \<le> m \<and> placement_fails st gap j"
      by (intro exI [of _ "Suc k"]) simp
    from True run sq have "straight_path_loop ?st
           (fst (line_square gap k)) (snd (line_square gap k)) sx sy
           (n1 gap + 1 + int k) (n2 gap) = Some (False, ?st)"
      by (subst straight_path_loop.simps) (simp add: Let_def)
    with ex show ?thesis by auto
  next
    case False
    then have blank: "cell (st_grid ?st) (st_w ?st) ?x ?y = 0" by simp
    have st1: "?st\<lparr>st_grid := set_cell (st_grid ?st) (st_w ?st) ?x ?y (n1 gap + 1 + int k)\<rparr>
                 = fill_line st gap (Suc k)"
      by (simp add: n)
    from upper_anchors_numbered_write [OF Suc(4) blank, of "n1 gap + 1 + int k"] st1
    have numbered: "upper_anchors_numbered (fill_line st gap (Suc k))" by simp
    from check_blocked_numbers_nearby_returns [OF numbered, of ?x ?y]
    obtain b where chk: "check_blocked_numbers_nearby (fill_line st gap (Suc k)) ?x ?y = Some b"
      by blast
    have unfold: "straight_path_loop ?st
           (fst (line_square gap k)) (snd (line_square gap k)) sx sy
           (n1 gap + 1 + int k) (n2 gap)
        = (if b then Some (False, fill_line st gap (Suc k))
           else straight_path_loop (fill_line st gap (Suc k)) ?x ?y sx sy
                  (n1 gap + 1 + int (Suc k)) (n2 gap))"
      using run sq blank chk st1
      by (subst straight_path_loop.simps) (simp add: Let_def add.commute add.left_commute)
    show ?thesis
    proof (cases b)
      case True
      with chk have "placement_fails st gap (Suc k)" by (simp add: placement_fails_def)
      with lt have "\<exists>j. k < j \<and> j \<le> m \<and> placement_fails st gap j"
        by (intro exI [of _ "Suc k"]) simp
      with unfold True show ?thesis by auto
    next
      case no_trip: False
      with chk blank have nf: "\<not> placement_fails st gap (Suc k)"
        by (simp add: placement_fails_def)
      from Suc(2) have "d = m - Suc k" by simp
      from Suc(1) [OF this _ numbered] lt
      obtain r st' where rec: "straight_path_loop (fill_line st gap (Suc k)) ?x ?y sx sy
                  (n1 gap + 1 + int (Suc k)) (n2 gap) = Some (r, st')"
        and r: "r \<longleftrightarrow> \<not> (\<exists>j. Suc k < j \<and> j \<le> m \<and> placement_fails st gap j)"
        and st': "r \<longrightarrow> st' = fill_line st gap m"
        by auto
      have "(\<exists>j. k < j \<and> j \<le> m \<and> placement_fails st gap j)
         \<longleftrightarrow> (\<exists>j. Suc k < j \<and> j \<le> m \<and> placement_fails st gap j)"
        using nf by (metis Suc_lessI Suc_lessD)
      with unfold no_trip rec r st' show ?thesis by auto
    qed
  qed
qed

text \<open>
  Claim C5 as stated fails with diagonal moves enabled: the anchors 1 at (0,0) and 3 at
  (2,0) are horizontally aligned and their (Chebyshev) distance 2 is the span of the gap,
  yet the rule does not fire. With diagonal moves the code only looks for diagonal
  alignment; a row or a column does not force the path there.
\<close>

theorem straight_path_diagonal_mode_counterexample:
  "straight_path_applies_as_stated True \<lparr>n1 = 1, n2 = 3, l1 = (0, 0), l2 = (2, 0)\<rparr>
   \<and> map_option fst (do_straight_path
        \<lparr>st_w = 3, st_h = 3, st_diagonal = True, st_steps_limit = - 1,
          st_grid = [1, 0, 3,  0, 0, 0,  0, 0, 0],
          st_gaps = [\<lparr>n1 = 1, n2 = 3, l1 = (0, 0), l2 = (2, 0)\<rparr>,
                     \<lparr>n1 = 3, n2 = 10, l1 = (2, 0), l2 = (255, 255)\<rparr>]\<rparr> 0)
     = Some DIDNT_MOVE"
  by code_simp

text \<open>
  Claim C5, amended. For a gap with both anchors present, in a state whose present upper
  anchors hold a number, the straight-path rule returns, and it fires (does not return
  DIDNT_MOVE) exactly when, with diagonal moves disabled, the anchors share a column or a
  row, or, with diagonal moves enabled, they are exactly diagonally aligned, and in either
  mode their distance equals the span \<open>n2 - n1\<close>. It returns UNSOLVABLE exactly when it
  fires and one of the placements on the squares between the anchors fails (the square is
  occupied, or the blocked-number check trips after the number is written). When it
  returns MOVED, the numbers \<open>n1 + 1 .. n2 - 1\<close> stand on the squares between the anchors,
  in this order from \<open>l1\<close>, and the gap is removed from the list.
\<close>

theorem do_straight_path_rule:
  assumes "fst (l1 gap) \<noteq> NO_COORD" and "fst (l2 gap) \<noteq> NO_COORD"
    and "gap = st_gaps st ! gap_index"
    and "upper_anchors_numbered st"
  shows "do_straight_path st gap_index \<noteq> None
       \<and> (map_option fst (do_straight_path st gap_index) = Some DIDNT_MOVE
            \<longleftrightarrow> \<not> straight_path_applies (st_diagonal st) gap)
       \<and> (map_option fst (do_straight_path st gap_index) = Some UNSOLVABLE
            \<longleftrightarrow> straight_path_applies (st_diagonal st) gap
                \<and> (\<exists>k \<in> {1 .. nat (gap_span gap - 1)}. placement_fails st gap k))
       \<and> (map_option fst (do_straight_path st gap_index) = Some MOVED
            \<longrightarrow> map_option snd (do_straight_path st gap_index)
                = Some ((fill_line st gap (nat (gap_span gap - 1)))
                          \<lparr>st_gaps := remove_gap (st_gaps st) gap_index\<rparr>))"
proof (cases "straight_path_direction (st_diagonal st) gap")
  case None
  with assms(3) have "do_straight_path st gap_index = Some (DIDNT_MOVE, st)"
    by (simp add: do_straight_path_def)
  with None show ?thesis by (simp add: straight_path_direction_None [symmetric])
next
  case (Some d)
  obtain sx sy where d: "d = (sx, sy)" by (cases d)
  from Some have app: "straight_path_applies (st_diagonal st) gap"
    using straight_path_direction_None [of "st_diagonal st" gap] by simp
  have "\<exists>r st'. straight_path_loop st (fst (l1 gap)) (snd (l1 gap)) sx sy
          (n1 gap + 1) (n2 gap) = Some (r, st')
      \<and> (r \<longleftrightarrow> \<not> (\<exists>k \<in> {1 .. nat (gap_span gap - 1)}. placement_fails st gap k))
      \<and> (r \<longrightarrow> st' = fill_line st gap (nat (gap_span gap - 1)))"
  proof (cases "1 < gap_span gap")
    case True
    from straight_path_direction_Some [OF Some [unfolded d] True]
    have s: "sx = sgn (fst (l2 gap) - fst (l1 gap))" "sy = sgn (snd (l2 gap) - snd (l1 gap))"
      by simp_all
    have "upper_anchors_numbered (fill_line st gap 0)" using assms(4) by simp
    from straight_path_loop_fill_line [OF _ refl s this]
    obtain r st' where "straight_path_loop (fill_line st gap 0)
           (fst (line_square gap 0)) (snd (line_square gap 0)) sx sy
           (n1 gap + 1 + int 0) (n2 gap) = Some (r, st')"
      and "r \<longleftrightarrow> \<not> (\<exists>j. 0 < j \<and> j \<le> nat (gap_span gap - 1) \<and> placement_fails st gap j)"
      and "r \<longrightarrow> st' = fill_line st gap (nat (gap_span gap - 1))"
      by blast
    moreover have "(\<exists>j. 0 < j \<and> j \<le> nat (gap_span gap - 1) \<and> placement_fails st gap j)
       \<longleftrightarrow> (\<exists>k \<in> {1 .. nat (gap_span gap - 1)}. placement_fails st gap k)"
      by (auto simp add: Suc_le_eq)
    ultimately show ?thesis by (auto simp add: line_square_def)
  next
    case False
    then have stop: "\<not> n1 gap + 1 < n2 gap" by (simp add: gap_span_def)
    then have "straight_path_loop st (fst (l1 gap)) (snd (l1 gap)) sx sy
          (n1 gap + 1) (n2 gap) = Some (True, st)"
      by (subst straight_path_loop.simps) simp
    moreover from False have "nat (gap_span gap - 1) = 0" by simp
    ultimately show ?thesis by auto
  qed
  then obtain r st' where loop: "straight_path_loop st (fst (l1 gap)) (snd (l1 gap)) sx sy
          (n1 gap + 1) (n2 gap) = Some (r, st')"
    and r: "r \<longleftrightarrow> \<not> (\<exists>k \<in> {1 .. nat (gap_span gap - 1)}. placement_fails st gap k)"
    and st': "r \<longrightarrow> st' = fill_line st gap (nat (gap_span gap - 1))"
    by blast
  have res: "do_straight_path st gap_index
      = (if r then Some (MOVED, st'\<lparr>st_gaps := remove_gap (st_gaps st') gap_index\<rparr>)
         else Some (UNSOLVABLE, st'))"
    using Some d loop assms(3) by (simp add: do_straight_path_def)
  show ?thesis
  proof (cases r)
    case True
    with res r st' app show ?thesis by simp
  next
    case False
    with res r app show ?thesis by simp
  qed
qed

lemma example_upper_anchors_numbered:
  "upper_anchors_numbered
     \<lparr>st_w = 4, st_h = 4, st_diagonal = False, st_steps_limit = - 1,
       st_grid = [0, 0, 4, 3,  0, 0, 0, 0,  0, 7, 0, 9,  0, 0, 0, 0],
       st_gaps = [\<lparr>n1 = 0, n2 = 3, l1 = (255, 255), l2 = (3, 0)\<rparr>,
                  \<lparr>n1 = 4, n2 = 7, l1 = (2, 0), l2 = (1, 2)\<rparr>,
                  \<lparr>n1 = 7, n2 = 9, l1 = (1, 2), l2 = (3, 2)\<rparr>,
                  \<lparr>n1 = 9, n2 = 17, l1 = (3, 2), l2 = (255, 255)\<rparr>]\<rparr>"
  by (simp add: upper_anchors_numbered_def NO_COORD_def cell_def)

theorem do_straight_path_rule_witness:
  "map_option fst (do_straight_path
     \<lparr>st_w = 4, st_h = 4, st_diagonal = False, st_steps_limit = - 1,
       st_grid = [0, 0, 4, 3,  0, 0, 0, 0,  0, 7, 0, 9,  0, 0, 0, 0],
       st_gaps = [\<lparr>n1 = 0, n2 = 3, l1 = (255, 255), l2 = (3, 0)\<rparr>,
                  \<lparr>n1 = 4, n2 = 7, l1 = (2, 0), l2 = (1, 2)\<rparr>,
                  \<lparr>n1 = 7, n2 = 9, l1 = (1, 2), l2 = (3, 2)\<rparr>,
                  \<lparr>n1 = 9, n2 = 17, l1 = (3, 2), l2 = (255, 255)\<rparr>]\<rparr> 2) \<noteq> Some DIDNT_MOVE"
  using do_straight_path_rule [of "\<lparr>n1 = 7, n2 = 9, l1 = (1, 2), l2 = (3, 2)\<rparr>"
     "\<lparr>st_w = 4, st_h = 4, st_diagonal = False, st_steps_limit = - 1,
       st_grid = [0, 0, 4, 3,  0, 0, 0, 0,  0, 7, 0, 9,  0, 0, 0, 0],
       st_gaps = [\<lparr>n1 = 0, n2 = 3, l1 = (255, 255), l2 = (3, 0)\<rparr>,
                  \<lparr>n1 = 4, n2 = 7, l1 = (2, 0), l2 = (1, 2)\<rparr>,
                  \<lparr>n1 = 7, n2 = 9, l1 = (1, 2), l2 = (3, 2)\<rparr>,
                  \<lparr>n1 = 9, n2 = 17, l1 = (3, 2), l2 = (255, 255)\<rparr>]\<rparr>" 2,
     OF _ _ _ example_upper_anchors_numbered]
  by (simp add: NO_COORD_def straight_path_applies_def gap_span_def distance_def
        manhattan_distance_def)

subsection \<open>The blocked-number check\<close>


lemma manhattan_distance_1:
  "manhattan_distance x y a b = 1 \<longleftrightarrow>
     (a = x - 1 \<and> b = y) \<or> (a = x + 1 \<and> b = y) \<or> (a = x \<and> b = y - 1) \<or> (a = x \<and> b = y + 1)"
  unfolding manhattan_distance_def Let_def by arith

lemma chebyshev_distance_1:
  "chebyshev_distance x y a b = 1 \<longleftrightarrow>
     (a = x - 1 \<or> a = x \<or> a = x + 1) \<and> (b = y - 1 \<or> b = y \<or> b = y + 1)
     \<and> \<not> (a = x \<and> b = y)"
  unfolding chebyshev_distance_def Let_def by arith









text \<open>
  Both placement functions run the check on the state with the number written, before they
  touch the gap: a placement that returns TRUE has passed it.
\<close>

lemma place_number_l1_runs_check:
  assumes "place_number_l1 st gap_index x y = Some (True, st')"
  shows "check_blocked_numbers_nearby
             (st\<lparr>st_grid := set_cell (st_grid st) (st_w st) x y
                                 (n1 (st_gaps st ! gap_index) + 1)\<rparr>) x y = Some False"
  using assms
  by (auto simp add: place_number_l1_def Let_def split: if_splits option.splits bool.splits)

lemma place_number_l2_runs_check:
  assumes "place_number_l2 st gap_index x y = Some (True, st')"
  shows "check_blocked_numbers_nearby
             (st\<lparr>st_grid := set_cell (st_grid st) (st_w st) x y
                                 (n2 (st_gaps st ! gap_index) - 1)\<rparr>) x y = Some False"
  using assms
  by (auto simp add: place_number_l2_def Let_def split: if_splits option.splits bool.splits)





section \<open>The gap list\<close>

subsection \<open>The map from numbers to locations\<close>

lemma to_uchar_id: "0 \<le> v \<Longrightarrow> v < 256 \<Longrightarrow> to_uchar v = v"
  by (simp add: to_uchar_def)

lemma grid_index_bound:
  fixes x y w h :: int
  assumes "0 \<le> x" and "x < w" and "0 \<le> y" and "y < h"
  shows "0 \<le> y * w + x \<and> y * w + x < w * h"
proof -
  from assms have "(y + 1) * w \<le> h * w" by (intro mult_right_mono) simp_all
  then have "y * w + w \<le> w * h" by (simp add: algebra_simps)
  moreover from assms have "0 \<le> y * w" by simp
  ultimately show ?thesis using assms by linarith
qed

lemma valid_grid_sides:
  assumes "valid_grid g w h"
  shows "w \<le> 254" and "h \<le> 254"
proof -
  from assms have *: "0 < w" "0 < h" "w * h \<le> 254" by (simp_all add: valid_grid_def)
  then have "w * 1 \<le> w * h" by (intro mult_left_mono) simp_all
  then have a: "w \<le> w * h" by (simp only: mult_1_right)
  from * have "1 * h \<le> w * h" by (intro mult_right_mono) simp_all
  then have b: "h \<le> w * h" by (simp only: mult_1)
  from a *(3) show "w \<le> 254" by linarith
  from b *(3) show "h \<le> 254" by linarith
qed

lemma cell_in_grid:
  assumes "valid_grid g w h" and "on_grid w h c"
  shows "cell g w (fst c) (snd c) \<in> set g"
proof -
  from assms(2) grid_index_bound [of "fst c" w "snd c" h]
  have "nat (snd c * w + fst c) < nat (w * h)" by (simp add: on_grid_def)
  with assms(1) show ?thesis by (simp add: valid_grid_def cell_def)
qed

lemma grid_has_cell:
  assumes "valid_grid g w h" and "n \<in> set g"
  shows "\<exists>c. on_grid w h c \<and> cell g w (fst c) (snd c) = n"
proof -
  from assms(2) obtain i where i: "i < length g" "g ! i = n" by (auto simp add: in_set_conv_nth)
  from assms(1) have w: "0 < w" and len: "length g = nat (w * h)" by (simp_all add: valid_grid_def)
  let ?x = "int i mod w" and ?y = "int i div w"
  from i(1) len have lt: "int i < w * h" by simp
  have x: "0 \<le> ?x" "?x < w" using w by simp_all
  have eq: "?y * w + ?x = int i" by simp
  have "?y < h"
  proof (rule ccontr)
    assume "\<not> ?y < h"
    then have "h * w \<le> ?y * w" using w by (intro mult_right_mono) simp_all
    then have "w * h \<le> ?y * w" by (simp only: mult.commute)
    with eq x(1) lt show False by linarith
  qed
  moreover have "0 \<le> ?y" using w by (simp add: pos_imp_zdiv_nonneg_iff)
  moreover note x eq
  ultimately have "on_grid w h (?x, ?y)" "cell g w ?x ?y = n"
    using i(2) by (simp_all add: on_grid_def cell_def)
  then show ?thesis by (metis fst_conv snd_conv)
qed

lemma foldl_union_invariant:
  assumes "I A a" and "\<And>x B b. x \<in> set xs \<Longrightarrow> I B b \<Longrightarrow> I (F x \<union> B) (f b x)"
  shows "I (\<Union> (F ` set xs) \<union> A) (foldl f a xs)"
  using assms
proof (induction xs arbitrary: A a)
  case Nil
  then show ?case by simp
next
  case (Cons x xs)
  from Cons.prems have "I (F x \<union> A) (f a x)" by simp
  from Cons.IH [OF this] Cons.prems(2)
  have "I (\<Union> (F ` set xs) \<union> (F x \<union> A)) (foldl f (f a x) xs)" by simp
  moreover have "\<Union> (F ` set xs) \<union> (F x \<union> A) = \<Union> (F ` set (x # xs)) \<union> A" by auto
  ultimately show ?case by simp
qed

lemma locates_map_cell:
  assumes "valid_grid g w h" and "on_grid w h (x, y)" and "locates g w h S m"
  shows "locates g w h ({(x, y)} \<union> S) (map_cell g w y m x)"
proof -
  let ?v = "cell g w x y"
  from cell_in_grid [OF assms(1,2)] assms(1) have v: "0 \<le> ?v" "?v \<le> w * h"
    by (simp_all add: valid_grid_def)
  from assms(2) valid_grid_sides [OF assms(1)]
  have xy: "0 \<le> x" "x < 256" "0 \<le> y" "y < 256"
    by (simp_all add: on_grid_def)
  show ?thesis
  proof (cases "?v > 0")
    case False
    with v have "?v = 0" by simp
    then have "map_cell g w y m x = m" by (simp add: map_cell_def)
    with assms(3) \<open>?v = 0\<close> show ?thesis by (auto simp add: locates_def)
  next
    case True
    then have m': "map_cell g w y m x = m[nat ?v := (x, y)]"
      using xy by (simp add: map_cell_def to_uchar_id)
    from assms(3) v have len: "nat ?v < length m" by (simp add: locates_def)
    show ?thesis
      unfolding locates_def m'
    proof (intro conjI allI impI)
      show "length (m[nat ?v := (x, y)]) = nat (w * h + 1)"
        using assms(3) by (simp add: locates_def)
      show "m[nat ?v := (x, y)] ! 0 = (NO_COORD, NO_COORD)"
        using assms(3) True by (simp add: locates_def)
    next
      fix n
      assume n: "0 < n \<and> n \<le> w * h"
      show "if \<exists>c \<in> {(x, y)} \<union> S. cell g w (fst c) (snd c) = n
            then m[nat ?v := (x, y)] ! nat n \<in> {(x, y)} \<union> S
               \<and> cell g w (fst (m[nat ?v := (x, y)] ! nat n)) (snd (m[nat ?v := (x, y)] ! nat n)) = n
            else m[nat ?v := (x, y)] ! nat n = (NO_COORD, NO_COORD)"
      proof (cases "n = ?v")
        case True
        with len show ?thesis by simp
      next
        case False
        with n True have "nat n \<noteq> nat ?v" by simp
        then have "m[nat ?v := (x, y)] ! nat n = m ! nat n" by simp
        moreover from assms(3) n
        have "if \<exists>c \<in> S. cell g w (fst c) (snd c) = n
              then m ! nat n \<in> S \<and> cell g w (fst (m ! nat n)) (snd (m ! nat n)) = n
              else m ! nat n = (NO_COORD, NO_COORD)"
          by (simp add: locates_def)
        ultimately show ?thesis using False by auto
      qed
    qed
  qed
qed

lemma locates_map_row:
  assumes "valid_grid g w h" and "0 \<le> y" and "y < h" and "locates g w h S m"
  shows "locates g w h ({c. on_grid w h c \<and> snd c = y} \<union> S) (map_row g w m y)"
proof -
  have "locates g w h (\<Union> ((\<lambda>x. {(x, y)}) ` set [0 .. w - 1]) \<union> S)
          (foldl (map_cell g w y) m [0 .. w - 1])"
  proof (rule foldl_union_invariant [where I = "locates g w h", OF assms(4)])
    fix x B b
    assume "x \<in> set [0 .. w - 1]" and "locates g w h B b"
    with assms(2,3) locates_map_cell [OF assms(1), of x y B b]
    show "locates g w h ({(x, y)} \<union> B) (map_cell g w y b x)"
      by (simp add: on_grid_def)
  qed
  moreover have "\<Union> ((\<lambda>x. {(x, y)}) ` set [0 .. w - 1]) = {c. on_grid w h c \<and> snd c = y}"
    using assms(2,3) by (auto simp add: on_grid_def)
  ultimately show ?thesis by (simp add: map_row_def)
qed

lemma locates_number_map:
  assumes "valid_grid g w h"
  shows "locates g w h {c. on_grid w h c} (compute_number_to_location_map g w h)"
proof -
  let ?m0 = "replicate (nat (w * h + 1)) (NO_COORD, NO_COORD)"
  from assms have "0 < w * h" by (simp add: valid_grid_def)
  then have init: "locates g w h {} ?m0" by (simp add: locates_def)
  have "locates g w h (\<Union> ((\<lambda>y. {c. on_grid w h c \<and> snd c = y}) ` set [0 .. h - 1]) \<union> {})
          (foldl (map_row g w) ?m0 [0 .. h - 1])"
  proof (rule foldl_union_invariant [where I = "locates g w h", OF init])
    fix y B b
    assume "y \<in> set [0 .. h - 1]" and "locates g w h B b"
    with locates_map_row [OF assms, of y B b]
    show "locates g w h ({c. on_grid w h c \<and> snd c = y} \<union> B) (map_row g w b y)" by simp
  qed
  moreover have "\<Union> ((\<lambda>y. {c. on_grid w h c \<and> snd c = y}) ` set [0 .. h - 1]) \<union> {}
      = {c. on_grid w h c}"
    by (auto simp add: on_grid_def)
  ultimately show ?thesis by (simp add: compute_number_to_location_map_def)
qed

text \<open>
  What the number map says about a grid: a number of the grid is mapped to a square that
  holds it, every other index to (NO_COORD, NO_COORD).
\<close>

lemma number_map_present:
  assumes "valid_grid g w h" and "0 < n" and "n \<le> w * h"
  shows "fst (compute_number_to_location_map g w h ! nat n) \<noteq> NO_COORD \<longleftrightarrow> n \<in> set g"
    and "n \<in> set g \<Longrightarrow> on_grid w h (compute_number_to_location_map g w h ! nat n)"
    and "n \<in> set g \<Longrightarrow> cell g w (fst (compute_number_to_location_map g w h ! nat n))
                            (snd (compute_number_to_location_map g w h ! nat n)) = n"
proof -
  let ?m = "compute_number_to_location_map g w h"
  from locates_number_map [OF assms(1)] assms(2,3)
  have *: "if \<exists>c \<in> {c. on_grid w h c}. cell g w (fst c) (snd c) = n
           then ?m ! nat n \<in> {c. on_grid w h c} \<and> cell g w (fst (?m ! nat n)) (snd (?m ! nat n)) = n
           else ?m ! nat n = (NO_COORD, NO_COORD)"
    unfolding locates_def by blast
  have iff: "(\<exists>c \<in> {c. on_grid w h c}. cell g w (fst c) (snd c) = n) \<longleftrightarrow> n \<in> set g"
    using grid_has_cell [OF assms(1), of n] cell_in_grid [OF assms(1)] by auto
  from * have **: "if n \<in> set g
           then on_grid w h (?m ! nat n) \<and> cell g w (fst (?m ! nat n)) (snd (?m ! nat n)) = n
           else ?m ! nat n = (NO_COORD, NO_COORD)"
    unfolding iff by (auto split: if_splits)
  have "on_grid w h c \<longrightarrow> fst c \<noteq> NO_COORD" for c
    using valid_grid_sides(1) [OF assms(1)] by (simp add: on_grid_def NO_COORD_def)
  from this [of "?m ! nat n"] ** show "fst (?m ! nat n) \<noteq> NO_COORD \<longleftrightarrow> n \<in> set g"
    by (cases "n \<in> set g") simp_all
  from ** show "n \<in> set g \<Longrightarrow> on_grid w h (?m ! nat n)" by (simp split: if_splits)
  from ** show "n \<in> set g \<Longrightarrow> cell g w (fst (?m ! nat n)) (snd (?m ! nat n)) = n"
    by (simp split: if_splits)
qed

lemma number_map_absent:
  assumes "valid_grid g w h" and "0 < n" and "n \<le> w * h" and "n \<notin> set g"
  shows "compute_number_to_location_map g w h ! nat n = (NO_COORD, NO_COORD)"
proof -
  let ?m = "compute_number_to_location_map g w h"
  from locates_number_map [OF assms(1)] assms(2,3)
  have *: "if \<exists>c \<in> {c. on_grid w h c}. cell g w (fst c) (snd c) = n
           then ?m ! nat n \<in> {c. on_grid w h c} \<and> cell g w (fst (?m ! nat n)) (snd (?m ! nat n)) = n
           else ?m ! nat n = (NO_COORD, NO_COORD)"
    unfolding locates_def by blast
  have "\<not> (\<exists>c \<in> {c. on_grid w h c}. cell g w (fst c) (snd c) = n)"
    using cell_in_grid [OF assms(1)] assms(4) by auto
  with * show ?thesis by (simp only: if_False)
qed

lemma number_map_coords:
  assumes "valid_grid g w h" and "0 < n" and "n \<le> w * h"
  shows "0 \<le> fst (compute_number_to_location_map g w h ! nat n)
       \<and> fst (compute_number_to_location_map g w h ! nat n) < 256
       \<and> 0 \<le> snd (compute_number_to_location_map g w h ! nat n)
       \<and> snd (compute_number_to_location_map g w h ! nat n) < 256"
proof (cases "n \<in> set g")
  case True
  from number_map_present(2) [OF assms True] valid_grid_sides [OF assms(1)]
  show ?thesis by (simp add: on_grid_def)
next
  case False
  from number_map_absent [OF assms False] show ?thesis by (simp add: NO_COORD_def)
qed

subsection \<open>The loop of compute_gaps\<close>

declare find_first_number.simps [simp del]

declare find_last_number.simps [simp del]

declare gaps_loop.simps [simp del]

lemma find_first_number_spec:
  assumes "i \<le> area + 1"
  shows "i \<le> find_first_number m area i \<and> find_first_number m area i \<le> area + 1
       \<and> (\<forall>k. i \<le> k \<and> k < find_first_number m area i \<longrightarrow> fst (m ! nat k) = NO_COORD)
       \<and> (find_first_number m area i \<le> area
            \<longrightarrow> fst (m ! nat (find_first_number m area i)) \<noteq> NO_COORD)"
  using assms
proof (induction m area i rule: find_first_number.induct)
  case (1 m area i)
  show ?case
  proof (cases "i \<le> area \<and> fst (m ! nat i) = NO_COORD")
    case True
    then have eq: "find_first_number m area i = find_first_number m area (i + 1)"
      by (subst find_first_number.simps) simp
    from True 1(1) have IH: "i + 1 \<le> find_first_number m area (i + 1)
       \<and> find_first_number m area (i + 1) \<le> area + 1
       \<and> (\<forall>k. i + 1 \<le> k \<and> k < find_first_number m area (i + 1) \<longrightarrow> fst (m ! nat k) = NO_COORD)
       \<and> (find_first_number m area (i + 1) \<le> area
            \<longrightarrow> fst (m ! nat (find_first_number m area (i + 1))) \<noteq> NO_COORD)"
      by simp
    have "fst (m ! nat k) = NO_COORD" if "i \<le> k" and "k < find_first_number m area (i + 1)" for k
    proof (cases "k = i")
      case True
      with \<open>i \<le> area \<and> fst (m ! nat i) = NO_COORD\<close> show ?thesis by simp
    next
      case False
      with that IH show ?thesis by simp
    qed
    with IH show ?thesis unfolding eq by simp
  next
    case False
    with 1(2) have "find_first_number m area i = i"
      by (subst find_first_number.simps) auto
    with False 1(2) show ?thesis by auto
  qed
qed

lemma find_last_number_spec:
  assumes "first - 1 \<le> i"
  shows "first - 1 \<le> find_last_number m first i \<and> find_last_number m first i \<le> i
       \<and> (\<forall>k. find_last_number m first i < k \<and> k \<le> i \<longrightarrow> fst (m ! nat k) = NO_COORD)
       \<and> (first \<le> find_last_number m first i
            \<longrightarrow> fst (m ! nat (find_last_number m first i)) \<noteq> NO_COORD)"
  using assms
proof (induction m first i rule: find_last_number.induct)
  case (1 m first i)
  show ?case
  proof (cases "first \<le> i \<and> fst (m ! nat i) = NO_COORD")
    case True
    then have eq: "find_last_number m first i = find_last_number m first (i - 1)"
      by (subst find_last_number.simps) simp
    from True 1(1) have IH: "first - 1 \<le> find_last_number m first (i - 1)
       \<and> find_last_number m first (i - 1) \<le> i - 1
       \<and> (\<forall>k. find_last_number m first (i - 1) < k \<and> k \<le> i - 1 \<longrightarrow> fst (m ! nat k) = NO_COORD)
       \<and> (first \<le> find_last_number m first (i - 1)
            \<longrightarrow> fst (m ! nat (find_last_number m first (i - 1))) \<noteq> NO_COORD)"
      by simp
    have "fst (m ! nat k) = NO_COORD" if "find_last_number m first (i - 1) < k" and "k \<le> i" for k
    proof (cases "k = i")
      case True
      with \<open>first \<le> i \<and> fst (m ! nat i) = NO_COORD\<close> show ?thesis by simp
    next
      case False
      with that IH show ?thesis by simp
    qed
    with IH show ?thesis unfolding eq by simp
  next
    case False
    with 1(2) have "find_last_number m first i = i"
      by (subst find_last_number.simps) auto
    with False 1(2) show ?thesis by auto
  qed
qed

lemma gaps_cover_present:
  assumes "gaps_cover m (i + 1) hi gs" and "fst (m ! nat i) \<noteq> NO_COORD"
  shows "gaps_cover m i hi gs"
  unfolding gaps_cover_def
proof (intro conjI allI impI ballI)
  show "sorted_wrt (\<lambda>a b. n2 a \<le> n1 b) gs" using assms(1) by (simp add: gaps_cover_def)
next
  fix gap assume "gap \<in> set gs"
  with assms(1) have "closed_gap m gap" "i + 1 \<le> n1 gap" "n2 gap \<le> hi"
    by (simp_all add: gaps_cover_def)
  then show "closed_gap m gap" "i \<le> n1 gap" "n2 gap \<le> hi" by simp_all
next
  fix k assume k: "i \<le> k \<and> k \<le> hi"
  show "fst (m ! nat k) = NO_COORD \<longleftrightarrow> (\<exists>gap \<in> set gs. n1 gap < k \<and> k < n2 gap)"
  proof (cases "k = i")
    case True
    have "\<not> (\<exists>gap \<in> set gs. n1 gap < k \<and> k < n2 gap)"
      using assms(1) True by (fastforce simp add: gaps_cover_def)
    with True assms(2) show ?thesis by simp
  next
    case False
    with k have "i + 1 \<le> k \<and> k \<le> hi" by simp
    with assms(1) show ?thesis unfolding gaps_cover_def by blast
  qed
qed

lemma gaps_cover_Cons:
  assumes "gaps_cover m e hi gs" and "closed_gap m c" and "n2 c = e" and "e \<le> hi"
  shows "gaps_cover m (n1 c) hi (c # gs)"
  unfolding gaps_cover_def
proof (intro conjI allI impI ballI)
  from assms(1) have "\<forall>gap \<in> set gs. e \<le> n1 gap" by (simp add: gaps_cover_def)
  with assms(1,3) show "sorted_wrt (\<lambda>a b. n2 a \<le> n1 b) (c # gs)"
    by (simp add: gaps_cover_def)
next
  fix gap assume "gap \<in> set (c # gs)"
  then consider "gap = c" | "gap \<in> set gs" by auto
  then have "closed_gap m gap \<and> n1 c \<le> n1 gap \<and> n2 gap \<le> hi"
  proof cases
    case 1
    with assms(2,3,4) show ?thesis by simp
  next
    case 2
    with assms(1) have "closed_gap m gap" "e \<le> n1 gap" "n2 gap \<le> hi"
      by (simp_all add: gaps_cover_def)
    moreover from assms(2,3) have "n1 c < e" by (simp add: closed_gap_def)
    ultimately show ?thesis by simp
  qed
  then show "closed_gap m gap" "n1 c \<le> n1 gap" "n2 gap \<le> hi" by simp_all
next
  fix k assume k: "n1 c \<le> k \<and> k \<le> hi"
  from assms(1) have later: "\<forall>gap \<in> set gs. e \<le> n1 gap" by (simp add: gaps_cover_def)
  show "fst (m ! nat k) = NO_COORD \<longleftrightarrow> (\<exists>gap \<in> set (c # gs). n1 gap < k \<and> k < n2 gap)"
  proof (cases "k < e")
    case True
    then have none: "\<not> (\<exists>gap \<in> set gs. n1 gap < k \<and> k < n2 gap)"
      using later by fastforce
    show ?thesis
    proof (cases "k = n1 c")
      case True
      with assms(2) none show ?thesis by (simp add: closed_gap_def)
    next
      case False
      with k \<open>k < e\<close> assms(2,3) have "n1 c < k" "k < n2 c" "fst (m ! nat k) = NO_COORD"
        by (simp_all add: closed_gap_def)
      then show ?thesis by simp
    qed
  next
    case False
    with k have "e \<le> k \<and> k \<le> hi" by simp
    with assms(1) have "fst (m ! nat k) = NO_COORD \<longleftrightarrow> (\<exists>gap \<in> set gs. n1 gap < k \<and> k < n2 gap)"
      unfolding gaps_cover_def by blast
    with False assms(3) show ?thesis by simp
  qed
qed

text \<open>
  The loop of \<^verbatim>\<open>compute_gaps\<close>, started at \<open>i\<close>. Either no gap is open at \<open>i\<close>: then the
  loop appends gaps that cover the numbers from \<open>i\<close> to the last number. Or the last gap
  of the list was opened at a number \<open>j\<close> below \<open>i\<close>: then the loop closes it at the
  next number \<open>e\<close> on the grid and goes on from there.
\<close>

lemma gaps_loop_spec:
  fixes first_number last_number :: int
  assumes first: "0 \<le> first_number" and last: "last_number < 256"
    and present_last: "fst (m ! nat last_number) \<noteq> NO_COORD"
    and coords: "\<forall>k. first_number \<le> k \<and> k \<le> last_number \<longrightarrow>
                  0 \<le> fst (m ! nat k) \<and> fst (m ! nat k) < 256
                  \<and> 0 \<le> snd (m ! nat k) \<and> snd (m ! nat k) < 256"
    and "first_number \<le> i" and "i \<le> last_number + 1"
  shows "((i = first_number \<or> fst (m ! nat (i - 1)) \<noteq> NO_COORD)
          \<and> (i \<le> last_number \<longrightarrow> fst (m ! nat i) \<noteq> NO_COORD)
          \<longrightarrow> (\<exists>new l'. gaps_loop m first_number last_number i gs longest = Some (gs @ new, l')
                \<and> gaps_cover m i last_number new))
       \<and> (\<forall>cl pg j. gs = cl @ [pg] \<and> first_number \<le> j \<and> j < i \<and> i \<le> last_number
              \<and> (\<forall>k. j < k \<and> (k < i \<or> k = j + 1) \<longrightarrow> fst (m ! nat k) = NO_COORD)
          \<longrightarrow> (\<exists>e new l'. gaps_loop m first_number last_number i gs longest
                   = Some (cl @ pg\<lparr>n2 := e, l2 := m ! nat e\<rparr> # new, l')
                \<and> j + 1 < e \<and> e \<le> last_number \<and> fst (m ! nat e) \<noteq> NO_COORD
                \<and> (\<forall>k. j < k \<and> k < e \<longrightarrow> fst (m ! nat k) = NO_COORD)
                \<and> gaps_cover m e last_number new))"
  using assms(5,6)
proof (induction "nat (last_number + 1 - i)" arbitrary: i gs longest)
  case 0
  then have i: "i = last_number + 1" by simp
  then have "gaps_loop m first_number last_number i gs longest = Some (gs, longest)"
    by (subst gaps_loop.simps) simp
  moreover have "gaps_cover m i last_number []" using i by (simp add: gaps_cover_def)
  ultimately show ?case using i by auto
next
  case (Suc n)
  then have i: "first_number \<le> i" "i \<le> last_number" by simp_all
  from Suc(2) i have n: "n = nat (last_number + 1 - (i + 1))" by simp
  note IH = Suc(1) [OF n]
  have IH1: "\<exists>new l'. gaps_loop m first_number last_number (i + 1) gs' lg' = Some (gs' @ new, l')
                \<and> gaps_cover m (i + 1) last_number new"
    if "fst (m ! nat i) \<noteq> NO_COORD"
      and "i + 1 \<le> last_number \<longrightarrow> fst (m ! nat (i + 1)) \<noteq> NO_COORD" for gs' lg'
    using IH [of gs' lg', THEN conjunct1] that i by simp
  have IH2: "\<exists>e new l'. gaps_loop m first_number last_number (i + 1) (cl @ [pg]) lg'
                   = Some (cl @ pg\<lparr>n2 := e, l2 := m ! nat e\<rparr> # new, l')
                \<and> j + 1 < e \<and> e \<le> last_number \<and> fst (m ! nat e) \<noteq> NO_COORD
                \<and> (\<forall>k. j < k \<and> k < e \<longrightarrow> fst (m ! nat k) = NO_COORD)
                \<and> gaps_cover m e last_number new"
    if "first_number \<le> j" and "j < i + 1" and "i + 1 \<le> last_number"
      and "\<forall>k. j < k \<and> (k < i + 1 \<or> k = j + 1) \<longrightarrow> fst (m ! nat k) = NO_COORD"
    for cl pg j lg'
    using IH [of "cl @ [pg]" lg', THEN conjunct2, rule_format, of cl pg j] that i by simp
  have uc: "to_uchar i = i" using i first last by (simp add: to_uchar_id)
  have tail: "\<exists>new l'. gaps_loop m first_number last_number (i + 1)
         (if i < last_number \<and> fst (m ! nat (i + 1)) = NO_COORD
          then add_gap gs1 i (fst (m ! nat i)) (snd (m ! nat i)) 0 NO_COORD NO_COORD
          else gs1) lg1 = Some (gs1 @ new, l') \<and> gaps_cover m i last_number new"
    if pres: "fst (m ! nat i) \<noteq> NO_COORD" for gs1 lg1
  proof (cases "i < last_number \<and> fst (m ! nat (i + 1)) = NO_COORD")
    case True
    let ?pg = "\<lparr>n1 = i, n2 = 0, l1 = m ! nat i, l2 = (NO_COORD, NO_COORD)\<rparr>"
    have ag: "add_gap gs1 i (fst (m ! nat i)) (snd (m ! nat i)) 0 NO_COORD NO_COORD = gs1 @ [?pg]"
      using coords i uc by (simp add: add_gap_def to_uchar_id) (simp add: to_uchar_def NO_COORD_def)
    from True have "\<forall>k. i < k \<and> (k < i + 1 \<or> k = i + 1) \<longrightarrow> fst (m ! nat k) = NO_COORD"
      by auto
    from IH2 [OF i(1) _ _ this, of gs1 ?pg lg1] True
    obtain e new l' where res: "gaps_loop m first_number last_number (i + 1) (gs1 @ [?pg]) lg1
                   = Some (gs1 @ ?pg\<lparr>n2 := e, l2 := m ! nat e\<rparr> # new, l')"
      and e: "i + 1 < e" "e \<le> last_number" "fst (m ! nat e) \<noteq> NO_COORD"
      and absent: "\<forall>k. i < k \<and> k < e \<longrightarrow> fst (m ! nat k) = NO_COORD"
      and cover: "gaps_cover m e last_number new"
      by auto
    let ?c = "?pg\<lparr>n2 := e, l2 := m ! nat e\<rparr>"
    from e absent pres have "closed_gap m ?c" by (simp add: closed_gap_def)
    from gaps_cover_Cons [OF cover this] e have "gaps_cover m i last_number (?c # new)" by simp
    with True ag res show ?thesis by auto
  next
    case False
    then have "i + 1 \<le> last_number \<longrightarrow> fst (m ! nat (i + 1)) \<noteq> NO_COORD" by auto
    from IH1 [OF pres this, of gs1 lg1]
    obtain new l' where res: "gaps_loop m first_number last_number (i + 1) gs1 lg1 = Some (gs1 @ new, l')"
      and cover: "gaps_cover m (i + 1) last_number new"
      by auto
    from gaps_cover_present [OF cover pres] res False show ?thesis by auto
  qed
  show ?case
  proof (intro conjI impI allI)
    assume a: "(i = first_number \<or> fst (m ! nat (i - 1)) \<noteq> NO_COORD)
          \<and> (i \<le> last_number \<longrightarrow> fst (m ! nat i) \<noteq> NO_COORD)"
    with i have pres: "fst (m ! nat i) \<noteq> NO_COORD" by simp
    from a have noclose: "\<not> (i > first_number \<and> fst (m ! nat i) \<noteq> NO_COORD
                              \<and> fst (m ! nat (i - 1)) = NO_COORD)"
      by auto
    have "gaps_loop m first_number last_number i gs longest
        = gaps_loop m first_number last_number (i + 1)
           (if i < last_number \<and> fst (m ! nat (i + 1)) = NO_COORD
            then add_gap gs i (fst (m ! nat i)) (snd (m ! nat i)) 0 NO_COORD NO_COORD
            else gs) longest"
      using i noclose pres by (subst gaps_loop.simps) (auto simp add: Let_def)
    with tail [OF pres, of gs longest]
    show "\<exists>new l'. gaps_loop m first_number last_number i gs longest = Some (gs @ new, l')
                \<and> gaps_cover m i last_number new"
      by simp
  next
    fix cl pg j
    assume b: "gs = cl @ [pg] \<and> first_number \<le> j \<and> j < i \<and> i \<le> last_number
              \<and> (\<forall>k. j < k \<and> (k < i \<or> k = j + 1) \<longrightarrow> fst (m ! nat k) = NO_COORD)"
    show "\<exists>e new l'. gaps_loop m first_number last_number i gs longest
                   = Some (cl @ pg\<lparr>n2 := e, l2 := m ! nat e\<rparr> # new, l')
                \<and> j + 1 < e \<and> e \<le> last_number \<and> fst (m ! nat e) \<noteq> NO_COORD
                \<and> (\<forall>k. j < k \<and> k < e \<longrightarrow> fst (m ! nat k) = NO_COORD)
                \<and> gaps_cover m e last_number new"
    proof (cases "fst (m ! nat i) = NO_COORD")
      case True
      with present_last i have lt: "i + 1 \<le> last_number" by (cases "i = last_number") auto
      have step: "gaps_loop m first_number last_number i gs longest
          = gaps_loop m first_number last_number (i + 1) gs longest"
        using i True by (subst gaps_loop.simps) (simp add: Let_def)
      from b True have "\<forall>k. j < k \<and> (k < i + 1 \<or> k = j + 1) \<longrightarrow> fst (m ! nat k) = NO_COORD"
        by (metis zle_add1_eq_le order_le_less add1_zle_eq)
      from IH2 [OF _ _ lt this, of cl pg longest] b show ?thesis
        unfolding step by simp
    next
      case False
      have "j \<noteq> i - 1"
      proof
        assume "j = i - 1"
        with b have "fst (m ! nat i) = NO_COORD" by simp
        with False show False by simp
      qed
      with b have j: "j + 1 < i" and before: "fst (m ! nat (i - 1)) = NO_COORD" by auto
      let ?pg = "pg\<lparr>n2 := i, l2 := m ! nat i\<rparr>"
      have step: "gaps_loop m first_number last_number i gs longest
        = gaps_loop m first_number last_number (i + 1)
           (if i < last_number \<and> fst (m ! nat (i + 1)) = NO_COORD
            then add_gap (cl @ [?pg]) i (fst (m ! nat i)) (snd (m ! nat i)) 0 NO_COORD NO_COORD
            else cl @ [?pg]) (max longest (i - n1 pg - 1))"
        using i b j False before uc
        by (subst gaps_loop.simps) (auto simp add: Let_def)
      from tail [OF False, of "cl @ [?pg]" "max longest (i - n1 pg - 1)"]
      obtain new l' where "gaps_loop m first_number last_number i gs longest
           = Some ((cl @ [?pg]) @ new, l')" and "gaps_cover m i last_number new"
        unfolding step by auto
      moreover from b have "\<forall>k. j < k \<and> k < i \<longrightarrow> fst (m ! nat k) = NO_COORD" by simp
      ultimately show ?thesis using j i False by auto
    qed
  qed
qed

text \<open>
  Claim C6. A grid has \<open>w * h\<close> cells holding numbers from 0 to \<open>w * h\<close>, with
  \<open>w * h \<le> 254\<close> (numbers and coordinates are unsigned characters, and 255 is NO_COORD;
  the game accepts no more than NUMBER_MAX = 99 cells). For every such grid with at least
  one number, \<^verbatim>\<open>compute_gaps\<close> returns a gap list that is ordered and without overlap
  (each gap ends no later than the next one starts, and every gap has \<open>n1 + 1 < n2\<close>);
  the numbers from 1 to \<open>w * h\<close> that are missing on the grid are exactly the numbers
  strictly between \<open>n1\<close> and \<open>n2\<close> of some gap; an anchor is (NO_COORD, NO_COORD) exactly
  when its number is the sentinel (\<open>n1 = 0\<close>, \<open>n2 = w * h + 1\<close>), and every other anchor is
  a square of the grid that holds the number \<open>n1\<close>, respectively \<open>n2\<close>, of the gap.
\<close>

theorem compute_gaps_invariant:
  assumes "valid_grid g w h" and "\<exists>v \<in> set g. v \<noteq> 0"
  shows "\<exists>gs longest. compute_gaps g w h = Some (gs, longest)
       \<and> sorted_wrt (\<lambda>a b. n2 a \<le> n1 b) gs
       \<and> (\<forall>gap \<in> set gs. n1 gap + 1 < n2 gap)
       \<and> (\<forall>k \<in> {1 .. w * h}. k \<notin> set g \<longleftrightarrow> (\<exists>gap \<in> set gs. n1 gap < k \<and> k < n2 gap))
       \<and> (\<forall>gap \<in> set gs.
            (fst (l1 gap) = NO_COORD \<longleftrightarrow> n1 gap = 0)
            \<and> (fst (l2 gap) = NO_COORD \<longleftrightarrow> n2 gap = w * h + 1)
            \<and> (fst (l1 gap) \<noteq> NO_COORD \<longrightarrow>
                 on_grid w h (l1 gap) \<and> cell g w (fst (l1 gap)) (snd (l1 gap)) = n1 gap)
            \<and> (fst (l2 gap) \<noteq> NO_COORD \<longrightarrow>
                 on_grid w h (l2 gap) \<and> cell g w (fst (l2 gap)) (snd (l2 gap)) = n2 gap))"
proof -
  let ?m = "compute_number_to_location_map g w h"
  define area where "area = w * h"
  define firstn where "firstn = find_first_number ?m area 1"
  define lastn where "lastn = find_last_number ?m firstn area"
  from assms(1) have area: "0 < area" "area \<le> 254" by (simp_all add: valid_grid_def area_def)
  note present = number_map_present [OF assms(1), folded area_def]
  from assms obtain v where v: "v \<in> set g" "0 < v" "v \<le> area"
    by (fastforce simp add: valid_grid_def area_def)
  with present(1) have Pv: "fst (?m ! nat v) \<noteq> NO_COORD" by simp
  from find_first_number_spec [of 1 area ?m] area
  have f: "1 \<le> firstn" "\<forall>k. 1 \<le> k \<and> k < firstn \<longrightarrow> fst (?m ! nat k) = NO_COORD"
    "firstn \<le> area \<longrightarrow> fst (?m ! nat firstn) \<noteq> NO_COORD"
    by (simp_all add: firstn_def)
  have "firstn \<le> v"
  proof (rule ccontr)
    assume "\<not> firstn \<le> v"
    with f(2) v(2) have "fst (?m ! nat v) = NO_COORD" by simp
    with Pv show False by simp
  qed
  with v f have fa: "firstn \<le> area" and Pf: "fst (?m ! nat firstn) \<noteq> NO_COORD" by simp_all
  from find_last_number_spec [of firstn area ?m] fa
  have l: "lastn \<le> area" "\<forall>k. lastn < k \<and> k \<le> area \<longrightarrow> fst (?m ! nat k) = NO_COORD"
    "firstn \<le> lastn \<longrightarrow> fst (?m ! nat lastn) \<noteq> NO_COORD"
    by (simp_all add: lastn_def)
  have "v \<le> lastn"
  proof (rule ccontr)
    assume "\<not> v \<le> lastn"
    with l(2) v(3) have "fst (?m ! nat v) = NO_COORD" by simp
    with Pv show False by simp
  qed
  with \<open>firstn \<le> v\<close> l have fl: "firstn \<le> lastn" and Pl: "fst (?m ! nat lastn) \<noteq> NO_COORD"
    by simp_all
  have coords: "\<forall>k. firstn \<le> k \<and> k \<le> lastn \<longrightarrow>
                  0 \<le> fst (?m ! nat k) \<and> fst (?m ! nat k) < 256
                  \<and> 0 \<le> snd (?m ! nat k) \<and> snd (?m ! nat k) < 256"
    using number_map_coords [OF assms(1), folded area_def] f(1) l(1) by simp
  define lead where "lead = \<lparr>n1 = 0, n2 = firstn, l1 = (NO_COORD, NO_COORD), l2 = ?m ! nat firstn\<rparr>"
  define trail where
    "trail = \<lparr>n1 = lastn, n2 = area + 1, l1 = ?m ! nat lastn, l2 = (NO_COORD, NO_COORD)\<rparr>"
  define gs0 where "gs0 = (if firstn \<noteq> 1 then [lead] else [])"
  define l0 where "l0 = (if firstn \<noteq> 1 then max 0 (firstn - 1) else 0)"
  have lead_eq: "add_gap [] 0 NO_COORD NO_COORD firstn (fst (?m ! nat firstn)) (snd (?m ! nat firstn))
      = [lead]"
    using coords fl f(1) fa area
    by (simp add: add_gap_def lead_def to_uchar_id) (simp add: to_uchar_def NO_COORD_def)
  have trail_eq: "add_gap gs lastn (fst (?m ! nat lastn)) (snd (?m ! nat lastn))
        (area + 1) NO_COORD NO_COORD = gs @ [trail]" for gs
    using coords fl f(1) l(1) area
    by (simp add: add_gap_def trail_def to_uchar_id) (simp add: to_uchar_def NO_COORD_def)
  from gaps_loop_spec [of firstn lastn ?m firstn gs0 l0, OF _ _ Pl coords, THEN conjunct1]
    f(1) l(1) area fl Pf
  obtain new l' where loop: "gaps_loop ?m firstn lastn firstn gs0 l0 = Some (gs0 @ new, l')"
    and cover: "gaps_cover ?m firstn lastn new"
    by auto
  define gs where "gs = gs0 @ new @ (if lastn \<noteq> area then [trail] else [])"
  have "compute_gaps g w h
      = (case gaps_loop ?m firstn lastn firstn gs0 l0 of
           None \<Rightarrow> None
         | Some (gs1, longest1) \<Rightarrow>
             if lastn \<noteq> area
             then Some (add_gap gs1 lastn (fst (?m ! nat lastn)) (snd (?m ! nat lastn))
                          (area + 1) NO_COORD NO_COORD,
                        max longest1 (area - lastn))
             else Some (gs1, longest1))"
    using fa fl lead_eq
    unfolding compute_gaps_def gs0_def l0_def firstn_def lastn_def area_def
    by (simp add: Let_def split: option.splits)
  with loop trail_eq have result: "\<exists>longest. compute_gaps g w h = Some (gs, longest)"
    by (simp add: gs_def)
  have lead_in: "gap \<in> set gs0 \<Longrightarrow> gap = lead \<and> firstn \<noteq> 1" for gap
    by (simp add: gs0_def split: if_splits)
  have closed: "closed_gap ?m gap \<and> firstn \<le> n1 gap \<and> n2 gap \<le> lastn" if "gap \<in> set new" for gap
    using cover that by (simp add: gaps_cover_def)
  have cases_gs: "(gap = lead \<and> firstn \<noteq> 1) \<or> gap \<in> set new \<or> (gap = trail \<and> lastn \<noteq> area)"
    if "gap \<in> set gs" for gap
    using that lead_in by (auto simp add: gs_def split: if_splits)
  have sorted: "sorted_wrt (\<lambda>a b. n2 a \<le> n1 b) gs"
    unfolding gs_def sorted_wrt_append
  proof (intro conjI ballI)
    show "sorted_wrt (\<lambda>a b. n2 a \<le> n1 b) gs0" by (simp add: gs0_def)
    show "sorted_wrt (\<lambda>a b. n2 a \<le> n1 b) new" using cover by (simp add: gaps_cover_def)
    show "sorted_wrt (\<lambda>a b. n2 a \<le> n1 b) (if lastn \<noteq> area then [trail] else [])" by simp
  next
    fix a b
    assume "a \<in> set new" and "b \<in> set (if lastn \<noteq> area then [trail] else [])"
    with closed [of a] show "n2 a \<le> n1 b" by (simp add: trail_def split: if_splits)
  next
    fix a b
    assume "a \<in> set gs0" and "b \<in> set (new @ (if lastn \<noteq> area then [trail] else []))"
    with lead_in [of a] closed [of b] fl show "n2 a \<le> n1 b"
      by (auto simp add: lead_def trail_def split: if_splits)
  qed
  have proper: "n1 gap + 1 < n2 gap" if "gap \<in> set gs" for gap
    using cases_gs [OF that] closed [of gap] f(1) l(1)
    by (auto simp add: lead_def trail_def closed_gap_def)
  have missing: "k \<notin> set g \<longleftrightarrow> (\<exists>gap \<in> set gs. n1 gap < k \<and> k < n2 gap)"
    if "k \<in> {1 .. w * h}" for k
  proof -
    from that have k: "0 < k" "k \<le> area" by (simp_all add: area_def)
    from present(1) [OF k] have iff: "k \<notin> set g \<longleftrightarrow> fst (?m ! nat k) = NO_COORD" by blast
    consider "k < firstn" | "firstn \<le> k \<and> k \<le> lastn" | "lastn < k" by linarith
    then show ?thesis
    proof cases
      case 1
      with k f(2) have "fst (?m ! nat k) = NO_COORD" by simp
      moreover from 1 k have "lead \<in> set gs" "n1 lead < k" "k < n2 lead"
        by (simp_all add: gs_def gs0_def lead_def)
      ultimately show ?thesis using iff by blast
    next
      case 2
      with cover have "fst (?m ! nat k) = NO_COORD \<longleftrightarrow> (\<exists>gap \<in> set new. n1 gap < k \<and> k < n2 gap)"
        unfolding gaps_cover_def by blast
      moreover have "(\<exists>gap \<in> set gs. n1 gap < k \<and> k < n2 gap)
          \<longleftrightarrow> (\<exists>gap \<in> set new. n1 gap < k \<and> k < n2 gap)"
      proof
        assume "\<exists>gap \<in> set gs. n1 gap < k \<and> k < n2 gap"
        then obtain gap where gap: "gap \<in> set gs" "n1 gap < k" "k < n2 gap" by blast
        from cases_gs [OF gap(1)] gap(2,3) 2 have "gap \<in> set new"
          by (auto simp add: lead_def trail_def)
        with gap show "\<exists>gap \<in> set new. n1 gap < k \<and> k < n2 gap" by blast
      next
        assume "\<exists>gap \<in> set new. n1 gap < k \<and> k < n2 gap"
        then show "\<exists>gap \<in> set gs. n1 gap < k \<and> k < n2 gap" by (auto simp add: gs_def)
      qed
      ultimately show ?thesis using iff by simp
    next
      case 3
      with k l(2) have "fst (?m ! nat k) = NO_COORD" by simp
      moreover from 3 k have "trail \<in> set gs" "n1 trail < k" "k < n2 trail"
        by (auto simp add: gs_def trail_def)
      ultimately show ?thesis using iff by blast
    qed
  qed
  have on: "on_grid w h (?m ! nat n) \<and> cell g w (fst (?m ! nat n)) (snd (?m ! nat n)) = n"
    if "0 < n" and "n \<le> area" and "fst (?m ! nat n) \<noteq> NO_COORD" for n
    using present [of n] that by simp
  have anchors: "(fst (l1 gap) = NO_COORD \<longleftrightarrow> n1 gap = 0)
            \<and> (fst (l2 gap) = NO_COORD \<longleftrightarrow> n2 gap = w * h + 1)
            \<and> (fst (l1 gap) \<noteq> NO_COORD \<longrightarrow>
                 on_grid w h (l1 gap) \<and> cell g w (fst (l1 gap)) (snd (l1 gap)) = n1 gap)
            \<and> (fst (l2 gap) \<noteq> NO_COORD \<longrightarrow>
                 on_grid w h (l2 gap) \<and> cell g w (fst (l2 gap)) (snd (l2 gap)) = n2 gap)"
    if "gap \<in> set gs" for gap
  proof -
    from cases_gs [OF that]
    consider "gap = lead" | "gap \<in> set new" | "gap = trail" by blast
    then show ?thesis
    proof cases
      case 1
      with on [of firstn] f(1) fa Pf show ?thesis by (simp add: lead_def area_def)
    next
      case 2
      from closed [OF 2] have c: "closed_gap ?m gap" "firstn \<le> n1 gap" "n2 gap \<le> lastn" by simp_all
      then have r: "0 < n1 gap" "n1 gap \<le> area" "0 < n2 gap" "n2 gap \<le> area"
        using f(1) l(1) by (simp_all add: closed_gap_def)
      from c(1) have p: "fst (?m ! nat (n1 gap)) \<noteq> NO_COORD" "l1 gap = ?m ! nat (n1 gap)"
        "fst (?m ! nat (n2 gap)) \<noteq> NO_COORD" "l2 gap = ?m ! nat (n2 gap)"
        by (simp_all add: closed_gap_def)
      from on [OF r(1,2) p(1)] on [OF r(3,4) p(3)] p r show ?thesis by (simp add: area_def)
    next
      case 3
      with on [of lastn] f(1) fl l(1) Pl show ?thesis by (simp add: trail_def area_def)
    qed
  qed
  from result sorted proper missing anchors show ?thesis by blast
qed

theorem compute_gaps_invariant_witness:
  "\<exists>gs longest. compute_gaps example_puzzle 4 4 = Some (gs, longest)
       \<and> sorted_wrt (\<lambda>a b. n2 a \<le> n1 b) gs
       \<and> (\<forall>gap \<in> set gs. n1 gap + 1 < n2 gap)"
proof -
  have "valid_grid example_puzzle 4 4" by (simp add: valid_grid_def example_puzzle_def)
  moreover have "\<exists>v \<in> set example_puzzle. v \<noteq> 0" by (simp add: example_puzzle_def)
  ultimately show ?thesis using compute_gaps_invariant [of example_puzzle 4 4] by blast
qed

section \<open>The path sampler\<close>

subsection \<open>The boustrophedon path\<close>

lemma adjacent_sym: "adjacent diagonal c d \<longleftrightarrow> adjacent diagonal d c"
  by (simp add: adjacent_def distance_def manhattan_distance_def chebyshev_distance_def
        abs_minus_commute)

lemma adjacent_right: "adjacent diagonal (x, y) (x + 1, y)"
  by (simp add: adjacent_def distance_def manhattan_distance_def chebyshev_distance_def)

lemma adjacent_down: "adjacent diagonal (x, y) (x, y + 1)"
  by (simp add: adjacent_def distance_def manhattan_distance_def chebyshev_distance_def)

lemma foldl_add_location:
  "foldl (\<lambda>p x. add_location p x y) path xs = path @ map (\<lambda>x. (to_uchar x, to_uchar y)) xs"
  by (induction xs arbitrary: path) (simp_all add: add_location_def)

lemma map_uchar_row:
  assumes "0 \<le> y" "y < 256" "w \<le> 256"
  shows "map (\<lambda>x. (to_uchar x, to_uchar y)) [0 .. w - 1] = map (\<lambda>x. (x, y)) [0 .. w - 1]"
  using assms by (auto simp add: to_uchar_id)

lemma zig_row:
  assumes "0 \<le> y" "y < 256" "w \<le> 256"
  shows "zig w y path = path @ map (\<lambda>x. (x, y)) [0 .. w - 1]"
  using map_uchar_row [OF assms] by (simp add: zig_def foldl_add_location)

lemma zag_row:
  assumes "0 \<le> y" "y < 256" "w \<le> 256"
  shows "zag w y path = path @ rev (map (\<lambda>x. (x, y)) [0 .. w - 1])"
  using map_uchar_row [OF assms] by (simp add: zag_def foldl_add_location rev_map)

lemma successively_map_upto:
  assumes "\<And>x. a \<le> x \<Longrightarrow> x < b \<Longrightarrow> P (f x) (f (x + 1))"
  shows "successively P (map f [a .. b])"
  using assms
proof (induction a b rule: upto.induct)
  case (1 i j)
  show ?case
  proof (cases "i \<le> j")
    case False
    then show ?thesis by simp
  next
    case True
    then have eq: "[i .. j] = i # [i + 1 .. j]" by (simp add: upto_rec1)
    have rest: "successively P (map f [i + 1 .. j])"
      using 1(1) [OF True] 1(2) by simp
    show ?thesis
    proof (cases "i + 1 \<le> j")
      case False
      then show ?thesis unfolding eq by simp
    next
      case next_in: True
      then have "[i + 1 .. j] = (i + 1) # [i + 1 + 1 .. j]" by (simp add: upto_rec1)
      then have "hd (map f [i + 1 .. j]) = f (i + 1)" by simp
      moreover have "P (f i) (f (i + 1))" using 1(2) [of i] next_in by simp
      ultimately show ?thesis unfolding eq using rest by (simp add: successively_Cons)
    qed
  qed
qed

lemma row_connected: "successively (adjacent diagonal) (map (\<lambda>x. (x, y)) [0 .. w - 1])"
  by (rule successively_map_upto) (rule adjacent_right)

lemma row_connected_rev: "successively (adjacent diagonal) (rev (map (\<lambda>x. (x, y)) [0 .. w - 1]))"
  using row_connected [of diagonal y w] adjacent_sym [of diagonal]
  by simp

lemma row_set: "set (map (\<lambda>x. (x, y)) [0 .. w - 1]) = {c. snd c = y \<and> 0 \<le> fst c \<and> fst c < w}"
  by auto

lemma row_distinct: "distinct (map (\<lambda>x. (x, y)) [0 .. w - 1])"
  by (simp add: distinct_map inj_on_def)

lemma row_hd: "0 < w \<Longrightarrow> hd (map (\<lambda>x. (x, y)) [0 .. w - 1]) = (0, y)"
  by (simp add: upto_rec1)

lemma row_last: "0 < w \<Longrightarrow> last (map (\<lambda>x. (x, y)) [0 .. w - 1]) = (w - 1, y)"
  by (simp add: upto_rec2)

lemma row_nonempty: "0 < w \<Longrightarrow> map (\<lambda>x. (x, y)) [0 .. w - 1] \<noteq> []"
  by (simp add: upto_rec1)

declare simple_hampath_rows.simps [simp del]

lemma extend_rows:
  assumes "0 < w" and "0 \<le> y"
    and "distinct path"
    and "set path = {c. 0 \<le> fst c \<and> fst c < w \<and> 0 \<le> snd c \<and> snd c < y}"
    and "successively (adjacent diagonal) path"
    and "length path = nat (y * w)"
    and "row = map (\<lambda>x. (x, y)) [0 .. w - 1] \<or> row = rev (map (\<lambda>x. (x, y)) [0 .. w - 1])"
    and "path \<noteq> [] \<longrightarrow> adjacent diagonal (last path) (hd row)"
  shows "distinct (path @ row)"
    and "set (path @ row) = {c. 0 \<le> fst c \<and> fst c < w \<and> 0 \<le> snd c \<and> snd c < y + 1}"
    and "successively (adjacent diagonal) (path @ row)"
    and "length (path @ row) = nat ((y + 1) * w)"
proof -
  from assms(7) have row_set: "set row = {c. snd c = y \<and> 0 \<le> fst c \<and> fst c < w}"
    using row_set [of y w] by auto
  from assms(7) have row_distinct: "distinct row"
    using row_distinct [of y w] by auto
  from assms(7) have row_connected: "successively (adjacent diagonal) row"
    using row_connected [of diagonal y w] row_connected_rev [of diagonal y w] by auto
  from assms(7) assms(1) have row_length: "length row = nat w" by auto
  from assms(3,4) row_set row_distinct show "distinct (path @ row)" by auto
  from assms(2,4) row_set
  show "set (path @ row) = {c. 0 \<le> fst c \<and> fst c < w \<and> 0 \<le> snd c \<and> snd c < y + 1}"
    by auto
  from assms(5,8) row_connected show "successively (adjacent diagonal) (path @ row)"
    by (auto simp add: successively_append_iff)
  from assms(1,2) have "nat (y * w) + nat w = nat ((y + 1) * w)"
    by (simp add: algebra_simps nat_add_distrib)
  with assms(6) row_length show "length (path @ row) = nat ((y + 1) * w)" by simp
qed

lemma simple_hampath_rows_spec:
  assumes "0 < w" and "w \<le> 256" and "h \<le> 256" and "0 \<le> y" and "y \<le> h"
    and "distinct path"
    and "set path = {c. 0 \<le> fst c \<and> fst c < w \<and> 0 \<le> snd c \<and> snd c < y}"
    and "successively (adjacent diagonal) path"
    and "length path = nat (y * w)"
    and "path \<noteq> [] \<longrightarrow> last path = (0, y - 1)"
  shows "hamiltonian_path w h diagonal (simple_hampath_rows w h y path)"
  using assms
proof (induction w h y path rule: simple_hampath_rows.induct)
  case (1 w h y path)
  show ?case
  proof (cases "y < h")
    case False
    with 1(6) have "y = h" by simp
    then have "simple_hampath_rows w h y path = path"
      by (subst simple_hampath_rows.simps) simp
    with 1(7-10) \<open>y = h\<close> show ?thesis
      by (auto simp add: hamiltonian_path_def on_grid_def mult.commute)
  next
    case True
    let ?row = "map (\<lambda>x. (x, y)) [0 .. w - 1]"
    let ?path1 = "path @ ?row"
    from True 1(4,5) have y: "0 \<le> y" "y < 256" by simp_all
    have zig: "zig w y path = ?path1" using zig_row [OF y 1(3)] .
    from 1(11) 1(2) have "path \<noteq> [] \<longrightarrow> adjacent diagonal (last path) (hd ?row)"
      using adjacent_down [of diagonal 0 "y - 1"] by (simp add: row_hd)
    note p1 = extend_rows [OF 1(2) y(1) 1(7,8,9,10) disjI1 [OF refl] this]
    have last1: "last ?path1 = (w - 1, y)" using 1(2) row_last [of w y] row_nonempty [of w y]
      by simp
    show ?thesis
    proof (cases "y + 1 = h")
      case True
      then have "simple_hampath_rows w h y path = ?path1"
        using \<open>y < h\<close> zig by (subst simple_hampath_rows.simps) simp
      with p1 True show ?thesis
        by (auto simp add: hamiltonian_path_def on_grid_def mult.commute)
    next
      case False
      let ?wor = "rev (map (\<lambda>x. (x, y + 1)) [0 .. w - 1])"
      let ?path2 = "?path1 @ ?wor"
      from False True 1(4) y have y1: "0 \<le> y + 1" "y + 1 < 256" by simp_all
      have zag: "zag w (y + 1) ?path1 = ?path2" using zag_row [OF y1 1(3)] .
      have eq: "simple_hampath_rows w h y path = simple_hampath_rows w h (y + 2) ?path2"
        using True False zig zag by (subst simple_hampath_rows.simps) (simp add: Let_def)
      have "hd ?wor = (w - 1, y + 1)" using 1(2) row_last [of w "y + 1"] row_nonempty [of w "y + 1"]
        by (simp add: hd_rev)
      with last1 have "?path1 \<noteq> [] \<longrightarrow> adjacent diagonal (last ?path1) (hd ?wor)"
        using adjacent_down [of diagonal "w - 1" y] by simp
      note p2 = extend_rows [OF 1(2) y1(1) p1 disjI2 [OF refl] this]
      have last2: "?path2 \<noteq> [] \<longrightarrow> last ?path2 = (0, y + 2 - 1)"
        using 1(2) row_hd [of w "y + 1"] row_nonempty [of w "y + 1"] by (simp add: last_rev)
      have "hamiltonian_path w h diagonal (simple_hampath_rows w h (y + 2) ?path2)"
      proof (rule 1(1) [OF True zig [symmetric] False, unfolded zig zag])
        show "0 < w" "w \<le> 256" "h \<le> 256" by fact+
        show "0 \<le> y + 2" using y by simp
        show "y + 2 \<le> h" using True False by simp
        show "distinct ?path2" using p2(1) .
        show "set ?path2 = {c. 0 \<le> fst c \<and> fst c < w \<and> 0 \<le> snd c \<and> snd c < y + 2}"
          using p2(2) by (simp add: add.assoc)
        show "successively (adjacent diagonal) ?path2" using p2(3) .
        show "length ?path2 = nat ((y + 2) * w)" using p2(4) by (simp add: add.assoc)
        show "?path2 \<noteq> [] \<longrightarrow> last ?path2 = (0, y + 2 - 1)" using last2 .
      qed
      with eq show ?thesis by simp
    qed
  qed
qed

lemma simple_hampath_spec:
  assumes "0 < w" and "0 < h" and "w \<le> 256" and "h \<le> 256"
  shows "\<exists>path. simple_hampath w h = Some path \<and> hamiltonian_path w h diagonal path"
proof -
  have "hamiltonian_path w h diagonal (simple_hampath_rows w h 0 [])"
    using assms by (intro simple_hampath_rows_spec) auto
  moreover from this have "int (length (simple_hampath_rows w h 0 [])) = w * h"
    using assms by (simp add: hamiltonian_path_def)
  ultimately show ?thesis by (simp add: simple_hampath_def)
qed

subsection \<open>Reversing a prefix, finding a location, listing the neighbours\<close>

declare reverse_loop.simps [simp del]

declare find_location_from.simps [simp del]

lemma reverse_loop_nth:
  assumes "0 \<le> a" and "b < int (length list)"
  shows "length (reverse_loop list a b) = length list
       \<and> (\<forall>i < length list. reverse_loop list a b ! i
            = (if a \<le> int i \<and> int i \<le> b then list ! nat (a + b - int i) else list ! i))"
  using assms
proof (induction list a b rule: reverse_loop.induct)
  case (1 list a b)
  show ?case
  proof (cases "a < b")
    case False
    then have "reverse_loop list a b = list" by (subst reverse_loop.simps) simp
    moreover have "list ! nat (a + b - int i) = list ! i" if "a \<le> int i \<and> int i \<le> b" for i
    proof -
      from that False have "a + b - int i = int i" by simp
      then show ?thesis by simp
    qed
    ultimately show ?thesis by simp
  next
    case True
    let ?l = "list[nat a := list ! nat b, nat b := list ! nat a]"
    have eq: "reverse_loop list a b = reverse_loop ?l (a + 1) (b - 1)"
      using True by (subst reverse_loop.simps) simp
    from 1(1) [OF True] 1(2,3) True
    have IH: "length (reverse_loop ?l (a + 1) (b - 1)) = length list"
      "\<And>i. i < length list \<Longrightarrow> reverse_loop ?l (a + 1) (b - 1) ! i
            = (if a + 1 \<le> int i \<and> int i \<le> b - 1 then ?l ! nat (a + 1 + (b - 1) - int i) else ?l ! i)"
      by simp_all
    from True 1(2,3) have ab: "nat a < length list" "nat b < length list" "nat a \<noteq> nat b"
      by simp_all
    show ?thesis
      unfolding eq
    proof (intro conjI allI impI)
      show "length (reverse_loop ?l (a + 1) (b - 1)) = length list" by (rule IH(1))
    next
      fix i
      assume i: "i < length list"
      consider "int i = a" | "int i = b" | "a < int i \<and> int i < b" | "int i < a \<or> b < int i"
        by linarith
      then show "reverse_loop ?l (a + 1) (b - 1) ! i
            = (if a \<le> int i \<and> int i \<le> b then list ! nat (a + b - int i) else list ! i)"
      proof cases
        case 1
        then have "i = nat a" by simp
        with IH(2) [OF i] 1 True ab show ?thesis by simp
      next
        case 2
        then have "i = nat b" by simp
        with IH(2) [OF i] 2 True ab show ?thesis by simp
      next
        case 3
        then have "nat (a + b - int i) \<noteq> nat a" "nat (a + b - int i) \<noteq> nat b"
          using 1(2) by linarith+
        moreover have "a + 1 + (b - 1) - int i = a + b - int i" by simp
        ultimately show ?thesis using IH(2) [OF i] 3 by simp
      next
        case 4
        then have "i \<noteq> nat a" "i \<noteq> nat b" using 1(2) True by linarith+
        with IH(2) [OF i] 4 show ?thesis by auto
      qed
    qed
  qed
qed

lemma reverse_locations_spec:
  assumes "0 < k" and "k \<le> int (length list)"
  shows "reverse_locations list k = Some (rev (take (nat k) list) @ drop (nat k) list)"
proof -
  from assms have b: "k - 1 < int (length list)" by simp
  note r = reverse_loop_nth [OF order_refl b]
  have "reverse_loop list 0 (k - 1) = rev (take (nat k) list) @ drop (nat k) list"
  proof (rule nth_equalityI)
    show "length (reverse_loop list 0 (k - 1)) = length (rev (take (nat k) list) @ drop (nat k) list)"
      using r assms by simp
  next
    fix i
    assume "i < length (reverse_loop list 0 (k - 1))"
    with r have i: "i < length list" by simp
    show "reverse_loop list 0 (k - 1) ! i = (rev (take (nat k) list) @ drop (nat k) list) ! i"
    proof (cases "i < nat k")
      case True
      then have idx: "nat (0 + (k - 1) - int i) = nat k - Suc i" by linarith
      from True have "0 \<le> int i \<and> int i \<le> k - 1" by linarith
      with r i have "reverse_loop list 0 (k - 1) ! i = list ! nat (0 + (k - 1) - int i)" by simp
      with idx True assms show ?thesis
        by (simp add: nth_append rev_nth)
    next
      case False
      then have "\<not> (0 \<le> int i \<and> int i \<le> k - 1)" by linarith
      with r i have "reverse_loop list 0 (k - 1) ! i = list ! i" by simp
      with False assms show ?thesis by (simp add: nth_append)
    qed
  qed
  with assms show ?thesis by (simp add: reverse_locations_def)
qed

lemma find_location_from_spec:
  assumes "0 \<le> index" and "nat index \<le> j" and "int j < len" and "list ! j = (x, y)"
  shows "\<exists>r. find_location_from list len x y index = Some r \<and> index \<le> r \<and> r < len
            \<and> list ! nat r = (x, y)"
  using assms
proof (induction list len x y index rule: find_location_from.induct)
  case (1 list len x y index)
  from 1(2-4) have lt: "index < len" by linarith
  show ?case
  proof (cases "fst (list ! nat index) = x \<and> snd (list ! nat index) = y")
    case True
    with lt have "find_location_from list len x y index = Some index"
      by (subst find_location_from.simps) simp
    with True lt show ?thesis by (simp add: prod_eq_iff)
  next
    case False
    with lt have eq: "find_location_from list len x y index
        = find_location_from list len x y (index + 1)"
      by (subst find_location_from.simps) auto
    from False 1(5) have "nat index \<noteq> j" by auto
    with 1(2,3) have "nat (index + 1) \<le> j" by linarith
    from 1(1) [OF lt _ _ this 1(4,5)] False 1(2)
    obtain r where "find_location_from list len x y (index + 1) = Some r" "index + 1 \<le> r"
      "r < len" "list ! nat r = (x, y)"
      by auto
    with eq show ?thesis by auto
  qed
qed

lemma get_neighbors_foldl:
  "foldl (\<lambda>ns (x, y). get_neighbors_except_helper ns x y except) acc cs
     = acc @ map (\<lambda>(x, y). (to_uchar x, to_uchar y)) (filter (\<lambda>c. c \<noteq> except) cs)"
  by (induction cs arbitrary: acc)
     (auto simp add: get_neighbors_except_helper_def add_location_def prod_eq_iff)

lemma neighbors_NSWE_sound:
  assumes "on_grid w h (x, y)" and "c \<in> set (neighbors_NSWE w h diagonal x y)"
  shows "on_grid w h c \<and> distance x y (fst c) (snd c) diagonal = 1"
  using assms
  by (auto simp add: neighbors_NSWE_def on_grid_def distance_def manhattan_distance_def
        chebyshev_distance_def split: if_splits)

lemma neighbors_NSWE_complete_manhattan:
  assumes "on_grid w h (x, y)" and "on_grid w h (a, b)" and "manhattan_distance x y a b = 1"
  shows "(a, b) \<in> set (neighbors_NSWE w h diagonal x y)"
  using assms unfolding manhattan_distance_1 on_grid_def neighbors_NSWE_def
  by (elim disjE conjE) simp_all

lemma neighbors_NSWE_complete_chebyshev:
  assumes "on_grid w h (x, y)" and "on_grid w h (a, b)" and "chebyshev_distance x y a b = 1"
  shows "(a, b) \<in> set (neighbors_NSWE w h True x y)"
  using assms unfolding chebyshev_distance_1 on_grid_def neighbors_NSWE_def
  by (elim disjE conjE) simp_all

lemma set_neighbors_NSWE:
  assumes "on_grid w h (x, y)"
  shows "set (neighbors_NSWE w h diagonal x y)
     = {c. on_grid w h c \<and> distance x y (fst c) (snd c) diagonal = 1}"
proof (intro set_eqI iffI)
  fix c
  assume "c \<in> set (neighbors_NSWE w h diagonal x y)"
  with neighbors_NSWE_sound [OF assms]
  show "c \<in> {c. on_grid w h c \<and> distance x y (fst c) (snd c) diagonal = 1}" by simp
next
  fix c
  assume "c \<in> {c. on_grid w h c \<and> distance x y (fst c) (snd c) diagonal = 1}"
  then have g: "on_grid w h (fst c, snd c)" and d: "distance x y (fst c) (snd c) diagonal = 1"
    by simp_all
  have "(fst c, snd c) \<in> set (neighbors_NSWE w h diagonal x y)"
  proof (cases diagonal)
    case True
    with d have "chebyshev_distance x y (fst c) (snd c) = 1" by (simp add: distance_def)
    from neighbors_NSWE_complete_chebyshev [OF assms g this] True show ?thesis by simp
  next
    case False
    with d have "manhattan_distance x y (fst c) (snd c) = 1" by (simp add: distance_def)
    from neighbors_NSWE_complete_manhattan [OF assms g this] show ?thesis .
  qed
  then show "c \<in> set (neighbors_NSWE w h diagonal x y)" by simp
qed

lemma distinct_neighbors_NSWE: "distinct (neighbors_NSWE w h diagonal x y)"
  by (simp add: neighbors_NSWE_def)

lemma length_neighbors_NSWE:
  "length (neighbors_NSWE w h diagonal x y) \<le> (if diagonal then 8 else 4)"
  by (simp add: neighbors_NSWE_def)

subsection \<open>The shuffle keeps the path Hamiltonian\<close>

declare random_hampath_loop.simps [simp del]

lemma adjacent_irrefl: "\<not> adjacent diagonal c c"
  by (cases diagonal)
     (simp_all add: adjacent_def distance_def manhattan_distance_def chebyshev_distance_def)

lemma hamiltonian_path_rev:
  assumes "hamiltonian_path w h diagonal p"
  shows "hamiltonian_path w h diagonal (rev p)"
proof -
  from assms have "successively (adjacent diagonal) p" by (simp add: hamiltonian_path_def)
  then have "successively (\<lambda>c d. adjacent diagonal d c) p"
    by (rule successively_mono) (simp add: adjacent_sym)
  with assms show ?thesis by (simp add: hamiltonian_path_def successively_rev)
qed

lemma hamiltonian_path_reverse_prefix:
  assumes "hamiltonian_path w h diagonal p" and "0 < k" and "k < length p"
    and "adjacent diagonal (p ! 0) (p ! k)"
  shows "hamiltonian_path w h diagonal (rev (take k p) @ drop k p)"
proof -
  from assms(1) have p: "length p = nat (w * h)" "distinct p" "set p = {c. on_grid w h c}"
    "successively (adjacent diagonal) p"
    by (simp_all add: hamiltonian_path_def)
  have split: "p = take k p @ drop k p" by simp
  from p(2) have "distinct (take k p @ drop k p)" by simp
  then have d: "distinct (rev (take k p) @ drop k p)" by (simp only: distinct_append distinct_rev set_rev)
  have s: "set (rev (take k p) @ drop k p) = set p"
    by (metis append_take_drop_id set_append set_rev)
  from p(4) have "successively (adjacent diagonal) (take k p @ drop k p)" by simp
  then have st: "successively (adjacent diagonal) (take k p)"
    and sd: "successively (adjacent diagonal) (drop k p)"
    by (simp_all only: successively_append_iff)
  from st have "successively (\<lambda>c d. adjacent diagonal d c) (take k p)"
    by (rule successively_mono) (simp add: adjacent_sym)
  then have sr: "successively (adjacent diagonal) (rev (take k p))"
    by (simp add: successively_rev)
  from assms(2,3) have "take k p \<noteq> []" by auto
  then have "last (rev (take k p)) = p ! 0"
    using assms(2) by (simp add: last_rev hd_conv_nth)
  moreover from assms(3) have "hd (drop k p) = p ! k" by (simp add: hd_drop_conv_nth)
  ultimately have "adjacent diagonal (last (rev (take k p))) (hd (drop k p))"
    using assms(4) by simp
  with sr sd have "successively (adjacent diagonal) (rev (take k p) @ drop k p)"
    by (simp add: successively_append_iff)
  with d s p show ?thesis by (simp add: hamiltonian_path_def)
qed

lemma other_neighbor:
  assumes "on_grid w h (x, y)" and "2 \<le> w" and "2 \<le> h"
  shows "\<exists>c \<in> set (neighbors_NSWE w h diagonal x y). c \<noteq> e"
proof -
  define c1 where "c1 = (x, if y + 1 < h then y + 1 else y - 1)"
  define c2 where "c2 = (if x + 1 < w then x + 1 else x - 1, y)"
  from assms have "on_grid w h c1 \<and> distance x y (fst c1) (snd c1) diagonal = 1"
    by (simp add: c1_def on_grid_def distance_def manhattan_distance_def chebyshev_distance_def)
  then have 1: "c1 \<in> set (neighbors_NSWE w h diagonal x y)"
    using set_neighbors_NSWE [OF assms(1)] by simp
  from assms have "on_grid w h c2 \<and> distance x y (fst c2) (snd c2) diagonal = 1"
    by (simp add: c2_def on_grid_def distance_def manhattan_distance_def chebyshev_distance_def)
  then have 2: "c2 \<in> set (neighbors_NSWE w h diagonal x y)"
    using set_neighbors_NSWE [OF assms(1)] by simp
  have "c1 \<noteq> c2" by (simp add: c1_def c2_def)
  with 1 2 show ?thesis by (cases "e = c1") auto
qed

text \<open>
  The neighbours that \<^verbatim>\<open>get_neighbors_except\<close> returns for the start of a Hamiltonian path
  \<open>q\<close> and its successor: there is at least one and there are fewer than four (eight with
  diagonal moves), and each of them is a square of the grid next to the start.
\<close>

lemma get_neighbors_except_spec:
  assumes "hamiltonian_path w h diagonal q" and "2 \<le> w" and "2 \<le> h" and "w * h \<le> 254"
  shows "\<exists>ns. get_neighbors_except (q ! 0) (q ! 1) w h diagonal = Some ns
           \<and> 0 < length ns \<and> length ns < (if diagonal then 8 else 4)
           \<and> (\<forall>c \<in> set ns. on_grid w h c \<and> adjacent diagonal (q ! 0) c)"
proof -
  from assms(1) have q: "length q = nat (w * h)" "set q = {c. on_grid w h c}"
    "successively (adjacent diagonal) q"
    by (simp_all add: hamiltonian_path_def)
  from assms(2,3) have "2 * 2 \<le> w * h" by (intro mult_mono) simp_all
  with q(1) have len: "Suc (Suc 0) < length q" by simp
  then have l0: "0 < length q" and l1: "1 < length q" by auto
  have "q ! 0 \<in> set q" using l0 by (rule nth_mem)
  moreover have "q ! 1 \<in> set q" using l1 by (rule nth_mem)
  ultimately have "q ! 0 \<in> set q" "q ! 1 \<in> set q" .
  with q(2) have on0: "on_grid w h (fst (q ! 0), snd (q ! 0))" and on1: "on_grid w h (q ! 1)"
    by simp_all
  from successively_nth [OF q(3), of 0] len have adj: "adjacent diagonal (q ! 0) (q ! 1)" by simp
  let ?NS = "neighbors_NSWE w h diagonal (fst (q ! 0)) (snd (q ! 0))"
  let ?ns = "filter (\<lambda>c. c \<noteq> q ! 1) ?NS"
  note setNS = set_neighbors_NSWE [OF on0, of diagonal]
  have sides: "w \<le> 254" "h \<le> 254"
  proof -
    from assms(2,3) have "w * 1 \<le> w * h" by (intro mult_left_mono) simp_all
    then have "w \<le> w * h" by (simp only: mult_1_right)
    with assms(4) show "w \<le> 254" by linarith
    from assms(2,3) have "1 * h \<le> w * h" by (intro mult_right_mono) simp_all
    then have "h \<le> w * h" by (simp only: mult_1)
    with assms(4) show "h \<le> 254" by linarith
  qed
  have "map (\<lambda>(x, y). (to_uchar x, to_uchar y)) ?ns = ?ns"
  proof (rule map_idI)
    fix c assume "c \<in> set ?ns"
    with setNS have "on_grid w h c" by simp
    with sides show "(case c of (x, y) \<Rightarrow> (to_uchar x, to_uchar y)) = c"
      by (cases c) (simp add: on_grid_def to_uchar_id)
  qed
  with adj have res: "get_neighbors_except (q ! 0) (q ! 1) w h diagonal = Some ?ns"
    by (simp add: get_neighbors_except_def get_neighbors_foldl adjacent_def)
  from other_neighbor [OF on0 assms(2,3), of diagonal "q ! 1"]
  have "?ns \<noteq> []" by (simp add: filter_empty_conv)
  then have pos: "0 < length ?ns" by simp
  from on1 adj setNS have "q ! 1 \<in> set ?NS" by (simp add: adjacent_def)
  then have "length ?ns < length ?NS" by (intro length_filter_less) simp_all
  with length_neighbors_NSWE [of w h diagonal "fst (q ! 0)" "snd (q ! 0)"]
  have less: "length ?ns < (if diagonal then 8 else 4)" by (simp split: if_splits)
  have "\<forall>c \<in> set ?ns. on_grid w h c \<and> adjacent diagonal (q ! 0) c"
    using setNS by (simp add: adjacent_def)
  with res pos less show ?thesis by blast
qed

lemma random_hampath_shuffle:
  assumes "hamiltonian_path w h diagonal q" and "2 \<le> w" and "2 \<le> h" and "w * h \<le> 254"
    and "get_neighbors_except (q ! 0) (q ! 1) w h diagonal = Some ns" and "n < length ns"
    and "\<forall>c \<in> set ns. on_grid w h c \<and> adjacent diagonal (q ! 0) c"
  shows "\<exists>index path'. find_location q (w * h) (fst (ns ! n)) (snd (ns ! n)) = Some index
           \<and> 0 < index \<and> reverse_locations q index = Some path'
           \<and> hamiltonian_path w h diagonal path'"
proof -
  from assms(1) have q: "length q = nat (w * h)" "set q = {c. on_grid w h c}"
    by (simp_all add: hamiltonian_path_def)
  from assms(6,7) have B: "on_grid w h (ns ! n)" "adjacent diagonal (q ! 0) (ns ! n)" by simp_all
  with q(2) have "ns ! n \<in> set q" by simp
  then obtain j where j: "j < length q" "q ! j = ns ! n" by (auto simp add: in_set_conv_nth)
  with q(1) have "int j < w * h" by simp
  from find_location_from_spec [of 0 j "w * h" q "fst (ns ! n)" "snd (ns ! n)", OF _ _ this] j(2)
  obtain r where r: "find_location q (w * h) (fst (ns ! n)) (snd (ns ! n)) = Some r"
    "0 \<le> r" "r < w * h" "q ! nat r = ns ! n"
    by (auto simp add: find_location_def)
  have "r \<noteq> 0"
  proof
    assume "r = 0"
    with r(4) B(2) show False by (simp add: adjacent_irrefl)
  qed
  with r(2) have pos: "0 < r" by simp
  from r(3) q(1) pos have lt: "nat r < length q" "0 < nat r" by simp_all
  from reverse_locations_spec [OF pos, of q] lt(1)
  have rev: "reverse_locations q r = Some (rev (take (nat r) q) @ drop (nat r) q)" by simp
  from B(2) r(4) have "adjacent diagonal (q ! 0) (q ! nat r)" by simp
  from hamiltonian_path_reverse_prefix [OF assms(1) lt(2,1) this] r(1) pos rev
  show ?thesis by simp
qed

lemma random_hampath_step_spec:
  assumes "hamiltonian_path w h diagonal p" and "2 \<le> w" and "2 \<le> h" and "w * h \<le> 254"
  shows "\<exists>p' rs'. random_hampath_step w h diagonal i (p, rs) = Some (p', rs')
           \<and> hamiltonian_path w h diagonal p'"
proof -
  from assms(1) have len: "length p = nat (w * h)" by (simp add: hamiltonian_path_def)
  from assms(2,3) have "2 * 2 \<le> w * h" by (intro mult_mono) simp_all
  then have area: "0 < w * h" by simp
  define q where "q = (if i = SHUFFLE_FACTOR * (w * h) then rev p else p)"
  have start: "(if i = SHUFFLE_FACTOR * (w * h) then reverse_locations p (w * h) else Some p) = Some q"
    using reverse_locations_spec [OF area, of p] len by (simp add: q_def)
  have hq: "hamiltonian_path w h diagonal q"
    using assms(1) hamiltonian_path_rev [OF assms(1)] by (simp add: q_def)
  from get_neighbors_except_spec [OF hq assms(2-4)]
  obtain ns where ns: "get_neighbors_except (q ! 0) (q ! 1) w h diagonal = Some ns"
    "0 < length ns" "length ns < (if diagonal then 8 else 4)"
    "\<forall>c \<in> set ns. on_grid w h c \<and> adjacent diagonal (q ! 0) c"
    by blast
  define n where "n = fst (random_upto rs (int (length ns)))"
  define rs' where "rs' = snd (random_upto rs (int (length ns)))"
  from ns(2) have n: "0 \<le> n" "nat n < length ns"
    by (simp_all add: n_def random_upto_def nat_less_iff)
  from random_hampath_shuffle [OF hq assms(2-4) ns(1) n(2) ns(4)]
  obtain index path' where sh: "find_location q (w * h) (fst (ns ! nat n)) (snd (ns ! nat n)) = Some index"
    "0 < index" "reverse_locations q index = Some path'" "hamiltonian_path w h diagonal path'"
    by blast
  have "random_hampath_step w h diagonal i (p, rs) = Some (path', rs')"
    unfolding random_hampath_step_def
    using start ns(1,2,3) sh(1,2,3)
    by (simp add: Let_def n_def [symmetric] rs'_def [symmetric] split_beta split: if_splits)
  with sh(4) show ?thesis by blast
qed

lemma random_hampath_loop_spec:
  assumes "hamiltonian_path w h diagonal (fst s)" and "2 \<le> w" and "2 \<le> h" and "w * h \<le> 254"
  shows "\<exists>s'. random_hampath_loop w h diagonal i s = Some s'
           \<and> hamiltonian_path w h diagonal (fst s')"
  using assms
proof (induction w h diagonal i s rule: random_hampath_loop.induct)
  case (1 w h diagonal i s)
  show ?case
  proof (cases "i < 2 * SHUFFLE_FACTOR * (w * h)")
    case False
    then have "random_hampath_loop w h diagonal i s = Some s"
      by (subst random_hampath_loop.simps) simp
    with 1(2) show ?thesis by simp
  next
    case True
    from random_hampath_step_spec [OF 1(2-5), of i "snd s"]
    obtain p' rs' where step: "random_hampath_step w h diagonal i s = Some (p', rs')"
      and h: "hamiltonian_path w h diagonal p'"
      by auto
    from True step have "random_hampath_loop w h diagonal i s
        = random_hampath_loop w h diagonal (i + 1) (p', rs')"
      by (subst random_hampath_loop.simps) simp
    with 1(1) [OF True step] h 1(3-5) show ?thesis by simp
  qed
qed

lemma random_hampath_spec:
  assumes "2 \<le> w" and "2 \<le> h" and "w * h \<le> 254"
  shows "\<exists>path rs'. random_hampath rs w h diagonal = Some (path, rs')
           \<and> hamiltonian_path w h diagonal path"
proof -
  from assms(1,2) have "w * 1 \<le> w * h" by (intro mult_left_mono) simp_all
  then have "w \<le> w * h" by (simp only: mult_1_right)
  with assms(3) have w: "w \<le> 256" by linarith
  from assms(1,2) have "1 * h \<le> w * h" by (intro mult_right_mono) simp_all
  then have "h \<le> w * h" by (simp only: mult_1)
  with assms(3) have h: "h \<le> 256" by linarith
  from simple_hampath_spec [of w h diagonal] assms(1,2) w h
  obtain p where p: "simple_hampath w h = Some p" "hamiltonian_path w h diagonal p" by auto
  from random_hampath_loop_spec [of w h diagonal "(p, rs)" 0] p(2) assms
  obtain s' where "random_hampath_loop w h diagonal 0 (p, rs) = Some s'"
    "hamiltonian_path w h diagonal (fst s')"
    by auto
  with p(1) show ?thesis by (cases s') (simp add: random_hampath_def)
qed

subsection \<open>From the path to the grid\<close>

text \<open>
  The row-major index of a square, and the square of an index: on the grid the two are
  inverse to each other.
\<close>

lemma square_of_index:
  fixes x y w :: int
  assumes "0 \<le> x" and "x < w"
  shows "(y * w + x) mod w = x" and "(y * w + x) div w = y"
  using assms by simp_all

lemma index_inj:
  assumes "on_grid w h c" and "on_grid w h c'"
    and "nat (snd c * w + fst c) = nat (snd c' * w + fst c')"
  shows "c = c'"
proof -
  from assms(1,2) grid_index_bound [of "fst c" w "snd c" h] grid_index_bound [of "fst c'" w "snd c'" h]
  have "0 \<le> snd c * w + fst c" "0 \<le> snd c' * w + fst c'" by (simp_all add: on_grid_def)
  with assms(3) have eq: "snd c * w + fst c = snd c' * w + fst c'" by simp
  from assms(1) have c: "(snd c * w + fst c) mod w = fst c" "(snd c * w + fst c) div w = snd c"
    by (simp_all add: on_grid_def)
  from assms(2) have c': "(snd c' * w + fst c') mod w = fst c'" "(snd c' * w + fst c') div w = snd c'"
    by (simp_all add: on_grid_def)
  from c c' eq have "fst c = fst c'" "snd c = snd c'" by simp_all
  then show ?thesis by (simp add: prod_eq_iff)
qed

text \<open>
  \<^verbatim>\<open>path_to_grid\<close> after the first \<open>n\<close> locations of a Hamiltonian path: the square of the
  \<open>k\<close>-th location holds \<open>k + 1\<close>, for every \<open>k\<close> below \<open>n\<close>.
\<close>

lemma path_to_grid_prefix:
  assumes "hamiltonian_path w h diagonal p" and "w * h \<le> 254" and "n \<le> nat (w * h)"
  shows "length (foldl (\<lambda>ret i. set_cell ret w (fst (p ! nat i)) (snd (p ! nat i)) (i + 1))
                   (replicate (nat (w * h)) 0) [0 .. int n - 1]) = nat (w * h)
       \<and> (\<forall>k < n. foldl (\<lambda>ret i. set_cell ret w (fst (p ! nat i)) (snd (p ! nat i)) (i + 1))
                   (replicate (nat (w * h)) 0) [0 .. int n - 1]
                 ! nat (snd (p ! k) * w + fst (p ! k)) = int k + 1)"
  using assms(3)
proof (induction n)
  case 0
  then show ?case by simp
next
  case (Suc n)
  let ?f = "\<lambda>ret i. set_cell ret w (fst (p ! nat i)) (snd (p ! nat i)) (i + 1)"
  let ?s = "foldl ?f (replicate (nat (w * h)) 0) [0 .. int n - 1]"
  from assms(1) have p: "length p = nat (w * h)" "distinct p" "set p = {c. on_grid w h c}"
    by (simp_all add: hamiltonian_path_def)
  from Suc have IH: "length ?s = nat (w * h)"
    "\<And>k. k < n \<Longrightarrow> ?s ! nat (snd (p ! k) * w + fst (p ! k)) = int k + 1"
    by simp_all
  have on: "on_grid w h (p ! k)" if "k < nat (w * h)" for k
    using that p(1,3) nth_mem [of k p] by auto
  have "[0 .. int (Suc n) - 1] = [0 .. int n - 1] @ [int n]"
    using upto_rec2 [of 0 "int n"] by simp
  then have step: "foldl ?f (replicate (nat (w * h)) 0) [0 .. int (Suc n) - 1]
      = ?s[nat (snd (p ! n) * w + fst (p ! n)) := int n + 1]"
    using Suc(2) assms(2) by (simp add: set_cell_def to_uchar_id)
  from Suc(2) on [of n] grid_index_bound [of "fst (p ! n)" w "snd (p ! n)" h]
  have bound: "nat (snd (p ! n) * w + fst (p ! n)) < nat (w * h)"
    by (simp add: on_grid_def)
  show ?case
    unfolding step
  proof (intro conjI allI impI)
    show "length (?s[nat (snd (p ! n) * w + fst (p ! n)) := int n + 1]) = nat (w * h)"
      using IH(1) by simp
  next
    fix k
    assume k: "k < Suc n"
    show "?s[nat (snd (p ! n) * w + fst (p ! n)) := int n + 1]
            ! nat (snd (p ! k) * w + fst (p ! k)) = int k + 1"
    proof (cases "k = n")
      case True
      with bound IH(1) show ?thesis by simp
    next
      case False
      with k have kn: "k < n" by simp
      have "p ! k \<noteq> p ! n"
        using p(1,2) kn Suc(2) by (simp add: nth_eq_iff_index_eq)
      with index_inj [OF on [of k] on [of n]] kn Suc(2)
      have "nat (snd (p ! k) * w + fst (p ! k)) \<noteq> nat (snd (p ! n) * w + fst (p ! n))"
        by auto
      with IH(2) [OF kn] show ?thesis by simp
    qed
  qed
qed

lemma path_to_grid_spec:
  assumes "hamiltonian_path w h diagonal p" and "w * h \<le> 254"
  shows "length (path_to_grid p w h) = nat (w * h)"
    and "k < nat (w * h) \<Longrightarrow> path_to_grid p w h ! nat (snd (p ! k) * w + fst (p ! k)) = int k + 1"
proof -
  have "int (nat (w * h)) - 1 = w * h - 1 \<or> [0 .. w * h - 1] = []" by auto
  then have "[0 .. int (nat (w * h)) - 1] = [0 .. w * h - 1]" by auto
  with path_to_grid_prefix [OF assms order_refl]
  show "length (path_to_grid p w h) = nat (w * h)"
    and "k < nat (w * h) \<Longrightarrow> path_to_grid p w h ! nat (snd (p ! k) * w + fst (p ! k)) = int k + 1"
    by (simp_all add: path_to_grid_def)
qed

text \<open>Every index of the grid is the index of the square of exactly one path position.\<close>

lemma path_position:
  assumes "hamiltonian_path w h diagonal p" and "0 < w" and "i < nat (w * h)"
  shows "\<exists>k < nat (w * h). nat (snd (p ! k) * w + fst (p ! k)) = i
            \<and> p ! k = (int i mod w, int i div w)"
proof -
  from assms(1) have p: "length p = nat (w * h)" "set p = {c. on_grid w h c}"
    by (simp_all add: hamiltonian_path_def)
  let ?x = "int i mod w" and ?y = "int i div w"
  from assms(3) have lt: "int i < w * h" by simp
  have x: "0 \<le> ?x" "?x < w" using assms(2) by simp_all
  have eq: "?y * w + ?x = int i" by simp
  have "?y < h"
  proof (rule ccontr)
    assume "\<not> ?y < h"
    then have "h * w \<le> ?y * w" using assms(2) by (intro mult_right_mono) simp_all
    then have "w * h \<le> ?y * w" by (simp only: mult.commute)
    with eq x(1) lt show False by linarith
  qed
  moreover have "0 \<le> ?y" using assms(2) by (simp add: pos_imp_zdiv_nonneg_iff)
  ultimately have "on_grid w h (?x, ?y)" using x by (simp add: on_grid_def)
  with p(2) have "(?x, ?y) \<in> set p" by simp
  then obtain k where k: "k < length p" "p ! k = (?x, ?y)" by (auto simp add: in_set_conv_nth)
  with p(1) eq show ?thesis by auto
qed

lemma path_to_grid_hamiltonian:
  assumes "hamiltonian_path w h diagonal p" and "0 < w" and "w * h \<le> 254"
  shows "hamiltonian_numbering w h diagonal (path_to_grid p w h)"
proof -
  let ?s = "path_to_grid p w h"
  let ?n = "nat (w * h)"
  note s = path_to_grid_spec [OF assms(1,3)]
  from assms(1) have p: "length p = ?n" "distinct p" "successively (adjacent diagonal) p"
    by (simp_all add: hamiltonian_path_def)
  have pos: "\<exists>k < ?n. ?s ! i = int k + 1 \<and> p ! k = (int i mod w, int i div w)" if "i < ?n" for i
  proof -
    from path_position [OF assms(1,2) that]
    obtain k where k: "k < ?n" "nat (snd (p ! k) * w + fst (p ! k)) = i"
      "p ! k = (int i mod w, int i div w)" by blast
    from s(2) [OF k(1)] k show ?thesis by auto
  qed
  have "distinct ?s"
    unfolding distinct_conv_nth
  proof (intro allI impI)
    fix i j
    assume i: "i < length ?s" and j: "j < length ?s" and ne: "i \<noteq> j"
    from pos [of i] i s(1) obtain k where k: "k < ?n" "?s ! i = int k + 1"
      "p ! k = (int i mod w, int i div w)" by auto
    from pos [of j] j s(1) obtain k' where k': "k' < ?n" "?s ! j = int k' + 1"
      "p ! k' = (int j mod w, int j div w)" by auto
    show "?s ! i \<noteq> ?s ! j"
    proof
      assume "?s ! i = ?s ! j"
      with k(2) k'(2) have "k = k'" by simp
      with k(3) k'(3) have "int i mod w = int j mod w" "int i div w = int j div w" by simp_all
      then have "int i = int j" by (metis mult_div_mod_eq)
      with ne show False by simp
    qed
  qed
  moreover have "set ?s = {1 .. w * h}"
  proof (intro set_eqI iffI)
    fix v
    assume "v \<in> set ?s"
    then obtain i where i: "i < length ?s" "?s ! i = v" by (auto simp add: in_set_conv_nth)
    from pos [of i] i s(1) obtain k where "k < ?n" "?s ! i = int k + 1" by auto
    with i(2) show "v \<in> {1 .. w * h}" by auto
  next
    fix v
    assume v: "v \<in> {1 .. w * h}"
    then have k: "nat (v - 1) < ?n" by auto
    from k p(1) have "p ! nat (v - 1) \<in> set p" by (intro nth_mem) simp
    with assms(1) have "on_grid w h (p ! nat (v - 1))" by (simp add: hamiltonian_path_def)
    with grid_index_bound [of "fst (p ! nat (v - 1))" w "snd (p ! nat (v - 1))" h]
    have "nat (snd (p ! nat (v - 1)) * w + fst (p ! nat (v - 1))) < length ?s"
      by (simp add: on_grid_def s(1))
    moreover from s(2) [OF k] v
    have "?s ! nat (snd (p ! nat (v - 1)) * w + fst (p ! nat (v - 1))) = v" by simp
    ultimately show "v \<in> set ?s" by (metis nth_mem)
  qed
  moreover have "consecutive_adjacent w diagonal ?s"
    unfolding consecutive_adjacent_def
  proof (intro ballI impI)
    fix i j
    assume "i \<in> {..< length ?s}" and "j \<in> {..< length ?s}"
      and c: "?s ! i \<noteq> 0 \<and> ?s ! j = ?s ! i + 1"
    then have i: "i < ?n" and j: "j < ?n" using s(1) by simp_all
    from pos [OF i] obtain k where k: "k < ?n" "?s ! i = int k + 1"
      "p ! k = (int i mod w, int i div w)" by auto
    from pos [OF j] obtain k' where k': "k' < ?n" "?s ! j = int k' + 1"
      "p ! k' = (int j mod w, int j div w)" by auto
    from c k(2) k'(2) have "k' = Suc k" by simp
    with k' p(1) successively_nth [OF p(3), of k]
    have "adjacent diagonal (p ! k) (p ! k')" by simp
    with k(3) k'(3)
    show "distance (int i mod w) (int i div w) (int j mod w) (int j div w) diagonal = 1"
      by (simp add: adjacent_def)
  qed
  ultimately show ?thesis
    using s(1) by (simp add: hamiltonian_numbering_def complete_numbering_def)
qed

text \<open>
  Claim C3. For every width and height of at least 2 with no more than 99 cells, either
  adjacency mode and every random source, the path sampler returns a path, and the grid
  that \<^verbatim>\<open>path_to_grid\<close> builds from it holds each of the numbers \<open>1 .. w * h\<close> exactly once,
  with \<open>n\<close> and \<open>n + 1\<close> always on squares at distance 1 under the adjacency mode. The
  boustrophedon path is a Hamiltonian path (\<open>simple_hampath_spec\<close>) and every round of the
  shuffle keeps it one (\<open>random_hampath_step_spec\<close>).
\<close>

theorem random_hampath_hamiltonian:
  assumes "2 \<le> w" and "2 \<le> h" and "w * h \<le> 99"
  shows "\<exists>path rs'. random_hampath rs w h diagonal = Some (path, rs')
           \<and> hamiltonian_numbering w h diagonal (path_to_grid path w h)"
proof -
  from assms(3) have area: "w * h \<le> 254" by simp
  from random_hampath_spec [OF assms(1,2) area, of rs diagonal]
  obtain path rs' where r: "random_hampath rs w h diagonal = Some (path, rs')"
    "hamiltonian_path w h diagonal path"
    by blast
  from assms(1) have "0 < w" by simp
  from path_to_grid_hamiltonian [OF r(2) this area] r(1) show ?thesis by blast
qed

theorem random_hampath_hamiltonian_witness:
  "\<exists>path rs'. random_hampath (\<lambda>i. i) 3 3 True = Some (path, rs')
           \<and> hamiltonian_numbering 3 3 True (path_to_grid path 3 3)"
  using random_hampath_hamiltonian [of 3 3 "\<lambda>i. i" True] by simp

end
